theory Spec2Isabelle
  imports Main
begin

section \<open>Python values, exceptions and outcomes\<close>

text \<open>
  The exceptions that the modelled code can raise, and the three ways a call can end:
  it returns, the interpreter leaves through \<^verbatim>\<open>exit(n)\<close>, or an exception propagates to the
  caller. \<open>ExecException\<close> carries its message; \<open>ReError\<close> is \<^verbatim>\<open>re.error\<close> (a pattern that does
  not compile); \<open>RecursionError\<close> is raised by the interpreter when the call stack is full.
\<close>

datatype exn =
  ExecException string | TypeError | ValueError | AttributeError | ReError | RecursionError

datatype outcome = Returned | Exited nat | Raised exn

text \<open>
  What \<^verbatim>\<open>Result.stdout\<close> can hold: the text a backend returned, or the exception instance
  that \<^verbatim>\<open>exec\<close> stores there (\<^verbatim>\<open>Result(error, 1)\<close>).
\<close>

datatype pyval = PStr string | PExc exn

record result =
  stdout :: pyval
  returncode :: int

text \<open>
  Strings are read as Python \<^verbatim>\<open>str\<close> values whose code points are below 256, one \<open>char\<close> per
  code point. In that range \<^verbatim>\<open>str.isnumeric\<close> accepts the decimal digits 0-9 and the six
  characters U+00B2, U+00B3, U+00B9 (superscript digits) and U+00BC, U+00BD, U+00BE (vulgar
  fractions); \<^verbatim>\<open>int\<close> accepts, of these, only the decimal digits.
\<close>

definition decimal_char :: "char \<Rightarrow> bool" where
  "decimal_char c = (48 \<le> (of_char c :: nat) \<and> (of_char c :: nat) \<le> 57)"

definition numeric_char :: "char \<Rightarrow> bool" where
  "numeric_char c =
     (decimal_char c \<or> (of_char c :: nat) \<in> {178, 179, 185, 188, 189, 190})"

definition isnumeric :: "string \<Rightarrow> bool" where
  "isnumeric s = (s \<noteq> [] \<and> list_all numeric_char s)"

definition digits_value :: "string \<Rightarrow> nat" where
  "digits_value s = foldl (\<lambda>a c. 10 * a + ((of_char c :: nat) - 48)) 0 s"

text \<open>
  \<^verbatim>\<open>variable_to_int\<close>: \<^verbatim>\<open>int(value)\<close> is reached only when \<^verbatim>\<open>value.isnumeric()\<close> holds, and then
  it either reads a string of decimal digits or raises \<^verbatim>\<open>ValueError\<close>. (The limit that newer
  interpreters put on the number of digits is not modelled.)
\<close>

definition variable_to_int :: "string \<Rightarrow> string \<Rightarrow> exn + nat" where
  "variable_to_int variablename v =
     (if isnumeric v
      then (if list_all decimal_char v then Inr (digits_value v) else Inl ValueError)
      else Inl (ExecException
                 (''Variable '' @ variablename @ '' has not a numeric value: '' @ v)))"

fun digit_string :: "nat \<Rightarrow> string" where
  "digit_string n =
     (if n < 10 then [''0123456789'' ! n]
      else digit_string (n div 10) @ [''0123456789'' ! (n mod 10)])"

definition str_int :: "int \<Rightarrow> string" where
  "str_int i = (if i < 0 then CHR ''-'' # digit_string (nat (- i)) else digit_string (nat i))"

section \<open>Command descriptors and the object store\<close>

text \<open>
  An attribute of a command holds text, an immutable scalar, or a reference to a mutable
  container (a flat dict or list) in the object store.
\<close>

datatype atom = ANone | ABool bool | AInt int

datatype dval = DStr string | DAtom atom

datatype container = Dict "(string \<times> dval) list" | PyList "dval list"

datatype val = VStr string | VAtom atom | VRef nat

text \<open>
  The attributes \<^verbatim>\<open>exec\<close> reads are typed fields; \<open>extras\<close> are the further attributes of a
  concrete command type, and \<open>template_vars\<close> is what its \<^verbatim>\<open>list_template_vars()\<close> returns
  (the command classes themselves are not part of the sources at hand).
\<close>

record command =
  cmd :: string
  save :: "string option"
  exit_on_error :: bool
  error_if_pat :: "string option"
  error_if_not_pat :: "string option"
  loop_if_pat :: "string option"
  loop_if_not_pat :: "string option"
  loop_count :: string
  extras :: "(string \<times> val) list"
  template_vars :: "string list"

record heap =
  commands :: "command list"
  containers :: "container list"

definition opt_str :: "string option \<Rightarrow> val" where
  "opt_str x = (case x of None \<Rightarrow> VAtom ANone | Some t \<Rightarrow> VStr t)"

definition getattr :: "command \<Rightarrow> string \<Rightarrow> val option" where
  "getattr c name =
     (if name = ''cmd'' then Some (VStr (cmd c))
      else if name = ''save'' then Some (opt_str (save c))
      else if name = ''exit_on_error'' then Some (VAtom (ABool (exit_on_error c)))
      else if name = ''error_if'' then Some (opt_str (error_if_pat c))
      else if name = ''error_if_not'' then Some (opt_str (error_if_not_pat c))
      else if name = ''loop_if'' then Some (opt_str (loop_if_pat c))
      else if name = ''loop_if_not'' then Some (opt_str (loop_if_not_pat c))
      else if name = ''loop_count'' then Some (VStr (loop_count c))
      else map_of (extras c) name)"

fun assign :: "string \<Rightarrow> val \<Rightarrow> (string \<times> val) list \<Rightarrow> (string \<times> val) list" where
  "assign k v [] = [(k, v)]"
| "assign k v ((k', v') # rest) =
     (if k' = k then (k, v) # rest else (k', v') # assign k v rest)"

text \<open>
  \<^verbatim>\<open>setattr(template_cmd, member, replaced_str)\<close>. It is only reached for an attribute that
  held text, so the boolean field is never its target.
\<close>

definition setattr_str :: "command \<Rightarrow> string \<Rightarrow> string \<Rightarrow> command" where
  "setattr_str c name t =
     (if name = ''cmd'' then c\<lparr>cmd := t\<rparr>
      else if name = ''save'' then c\<lparr>save := Some t\<rparr>
      else if name = ''exit_on_error'' then c
      else if name = ''error_if'' then c\<lparr>error_if_pat := Some t\<rparr>
      else if name = ''error_if_not'' then c\<lparr>error_if_not_pat := Some t\<rparr>
      else if name = ''loop_if'' then c\<lparr>loop_if_pat := Some t\<rparr>
      else if name = ''loop_if_not'' then c\<lparr>loop_if_not_pat := Some t\<rparr>
      else if name = ''loop_count'' then c\<lparr>loop_count := t\<rparr>
      else c\<lparr>extras := assign name (VStr t) (extras c)\<rparr>)"

text \<open>\<^verbatim>\<open>setattr(template_cmd, member, new_cmd_member)\<close>: only an extra attribute holds a dict.\<close>

definition setattr_ref :: "command \<Rightarrow> string \<Rightarrow> nat \<Rightarrow> command" where
  "setattr_ref c name a = c\<lparr>extras := assign name (VRef a) (extras c)\<rparr>"

text \<open>
  \<^verbatim>\<open>copy.deepcopy\<close> of a command: text and scalars are immutable and shared, every container
  referenced is copied to a fresh address, once (the memo keeps two attributes that share a
  container sharing its copy). A reference beyond the store, which no Python object can
  hold, is left as it is.
\<close>

fun deepcopy_attrs ::
  "container list \<Rightarrow> (nat \<times> nat) list \<Rightarrow> (string \<times> val) list
     \<Rightarrow> (string \<times> val) list \<times> container list"
where
  "deepcopy_attrs cs memo [] = ([], cs)"
| "deepcopy_attrs cs memo ((k, VRef a) # rest) =
     (case map_of memo a of
        Some a' \<Rightarrow>
          (let (rest', cs') = deepcopy_attrs cs memo rest in ((k, VRef a') # rest', cs'))
      | None \<Rightarrow>
          if a < length cs then
            (let (rest', cs') = deepcopy_attrs (cs @ [cs ! a]) ((a, length cs) # memo) rest
             in ((k, VRef (length cs)) # rest', cs'))
          else
            (let (rest', cs') = deepcopy_attrs cs memo rest in ((k, VRef a) # rest', cs')))"
| "deepcopy_attrs cs memo ((k, VStr t) # rest) =
     (let (rest', cs') = deepcopy_attrs cs memo rest in ((k, VStr t) # rest', cs'))"
| "deepcopy_attrs cs memo ((k, VAtom x) # rest) =
     (let (rest', cs') = deepcopy_attrs cs memo rest in ((k, VAtom x) # rest', cs'))"

definition deepcopy :: "heap \<Rightarrow> nat \<Rightarrow> heap \<times> nat" where
  "deepcopy h a =
     (let c = commands h ! a;
          (ex', cs') = deepcopy_attrs (containers h) [] (extras c)
      in (\<lparr>commands = commands h @ [c\<lparr>extras := ex'\<rparr>], containers = cs'\<rparr>,
          length (commands h)))"

section \<open>Collaborators\<close>

text \<open>
  The Variable Store is a black box: its state is the history of the \<^verbatim>\<open>set_variable\<close> calls it
  received, and \<open>substitute\<close> is any function of that history and the template text. The
  backend primitive \<^verbatim>\<open>_exec_cmd\<close> is any function of the number of earlier invocations and the
  command, raising \<^verbatim>\<open>ExecException\<close> (\<open>Inl\<close> the message) or returning output text and a return
  code. \<open>regex\<close> stands for \<^verbatim>\<open>re\<close>: a pattern that compiles gives the predicate "\<^verbatim>\<open>re.search\<close>
  with \<^verbatim>\<open>re.MULTILINE\<close> finds a match in this text". \<open>writable\<close> says whether a path can be
  opened for writing, and \<open>cmdcfg\<close> is the \<^verbatim>\<open>cmdconfig\<close> the executor was constructed with
  (\<^verbatim>\<open>None\<close> by default).

  \<open>recursion_limit\<close> stands for the interpreter's limit on the call stack
  (\<^verbatim>\<open>sys.getrecursionlimit()\<close>), counted in retries: it is the number of retries that can be
  nested inside the outermost \<^verbatim>\<open>exec\<close> before the stack is full. A retry nests two frames,
  \<^verbatim>\<open>loop_if\<close> (or \<^verbatim>\<open>loop_if_not\<close>) and \<^verbatim>\<open>exec\<close>; the frames of the caller of the outermost
  \<^verbatim>\<open>exec\<close> and of the deepest callee are taken off the limit.
\<close>

record cmdconfig =
  loop_sleep :: nat

record env =
  exec_cmd :: "nat \<Rightarrow> command \<Rightarrow> string + (string \<times> int)"
  regex :: "string \<Rightarrow> (string \<Rightarrow> bool) option"
  substitute :: "(string \<times> pyval) list \<Rightarrow> string \<Rightarrow> string"
  writable :: "string \<Rightarrow> bool"
  cmdcfg :: "cmdconfig option"
  recursion_limit :: nat

datatype level = DEBUG | INFO | WARN | ERROR

datatype step = ErrorIf | ErrorIfNot | LoopIf | LoopIfNot

text \<open>
  Every effect is recorded, in order: a logger call, a line on the output sink, an invocation
  of the primitive, a \<^verbatim>\<open>set_variable\<close>, a file opened for writing and text written to it, a
  call of one of the four predicate methods, and a \<^verbatim>\<open>time.sleep\<close>.
\<close>

datatype event =
    Log level
  | Output
  | ExecCmd
  | SetVariable string pyval
  | Open string
  | Write string string
  | Eval step
  | Sleep nat

record effects =
  varstore :: "(string \<times> pyval) list"
  trace :: "event list"

section \<open>The Execution Engine\<close>

text \<open>
  \<open>run_count\<close> is the attribute \<^verbatim>\<open>self.run_count\<close>, \<open>calls\<close> the number of invocations of the
  primitive so far, and \<open>depth\<close> the number of retries that the current activation of
  \<^verbatim>\<open>exec\<close> is nested in (0 for the outermost one).
\<close>

record engine = effects +
  run_count :: nat
  calls :: nat
  depth :: nat

definition emit :: "event list \<Rightarrow> ('a effects_scheme) \<Rightarrow> ('a effects_scheme)" where
  "emit es s = s\<lparr>trace := trace s @ es\<rparr>"

definition set_variable :: "string \<Rightarrow> pyval \<Rightarrow> ('a effects_scheme) \<Rightarrow> ('a effects_scheme)" where
  "set_variable name v s =
     s\<lparr>varstore := varstore s @ [(name, v)], trace := trace s @ [SetVariable name v]\<rparr>"

definition substitute_items ::
  "env \<Rightarrow> (string \<times> pyval) list \<Rightarrow> (string \<times> dval) list \<Rightarrow> (string \<times> dval) list"
where
  "substitute_items e vs items =
     map (\<lambda>(k, v). (k, case v of DStr t \<Rightarrow> DStr (substitute e vs t) | DAtom x \<Rightarrow> DAtom x)) items"

text \<open>
  The loop of \<^verbatim>\<open>replace_variables\<close> over \<^verbatim>\<open>command.list_template_vars()\<close>: \<open>a\<close> is the caller's
  command, \<open>t\<close> the copy. Every member is read from the command at \<open>a\<close> in the current store.
\<close>

fun replace_members ::
  "env \<Rightarrow> (string \<times> pyval) list \<Rightarrow> nat \<Rightarrow> nat \<Rightarrow> string list \<Rightarrow> heap \<Rightarrow> exn + heap"
where
  "replace_members e vs a t [] h = Inr h"
| "replace_members e vs a t (member # ms) h =
     (case getattr (commands h ! a) member of
        None \<Rightarrow> Inl AttributeError
      | Some (VStr text) \<Rightarrow>
          replace_members e vs a t ms
            (h\<lparr>commands := (commands h)[t := setattr_str (commands h ! t) member (substitute e vs text)]\<rparr>)
      | Some (VAtom x) \<Rightarrow> replace_members e vs a t ms h
      | Some (VRef d) \<Rightarrow>
          (if d < length (containers h) then
             (case containers h ! d of
                Dict items \<Rightarrow>
                  replace_members e vs a t ms
                    (h\<lparr>containers := containers h @ [Dict (substitute_items e vs items)],
                       commands := (commands h)[t := setattr_ref (commands h ! t) member (length (containers h))]\<rparr>)
              | PyList xs \<Rightarrow> replace_members e vs a t ms h)
           else replace_members e vs a t ms h))"

definition replace_variables ::
  "env \<Rightarrow> (string \<times> pyval) list \<Rightarrow> heap \<Rightarrow> nat \<Rightarrow> exn + (heap \<times> nat)"
where
  "replace_variables e vs h a =
     (if a < length (commands h) then
        (let (h1, t) = deepcopy h a in
         case replace_members e vs a t (template_vars (commands h ! a)) h1 of
           Inl x \<Rightarrow> Inl x
         | Inr h2 \<Rightarrow> Inr (h2, t))
      else Inl AttributeError)"

definition log_command :: "command \<Rightarrow> engine \<Rightarrow> engine" where
  "log_command c s = emit [Log INFO] s"

text \<open>
  \<^verbatim>\<open>save_output\<close>: a falsy \<^verbatim>\<open>command.save\<close> (\<^verbatim>\<open>None\<close> or the empty string) does nothing. Any
  exception is swallowed with a warning: the failure to open the file, and the \<^verbatim>\<open>TypeError\<close> of
  writing something that is not text to the file just opened.
\<close>

definition save_output :: "env \<Rightarrow> command \<Rightarrow> result \<Rightarrow> engine \<Rightarrow> engine" where
  "save_output e c r s =
     (case save c of
        None \<Rightarrow> s
      | Some path \<Rightarrow>
          if path = [] then s
          else if \<not> writable e path then emit [Log WARN] s
          else (case stdout r of
                  PStr t \<Rightarrow> emit [Open path, Write path t] s
                | PExc x \<Rightarrow> emit [Open path, Log WARN] s))"

text \<open>
  \<^verbatim>\<open>re.search(pattern, result.stdout, re.MULTILINE)\<close>: the pattern is compiled first
  (\<^verbatim>\<open>re.error\<close>), then a subject that is not text is refused (\<^verbatim>\<open>TypeError\<close>).
\<close>

definition re_search :: "env \<Rightarrow> string \<Rightarrow> pyval \<Rightarrow> exn + bool" where
  "re_search e p v =
     (case regex e p of
        None \<Rightarrow> Inl ReError
      | Some m \<Rightarrow> (case v of PStr t \<Rightarrow> Inr (m t) | PExc x \<Rightarrow> Inl TypeError))"

definition error_if :: "env \<Rightarrow> command \<Rightarrow> result \<Rightarrow> engine \<Rightarrow> outcome \<times> engine" where
  "error_if e c r s =
     (let s0 = emit [Eval ErrorIf] s in
      case error_if_pat c of
        None \<Rightarrow> (Returned, s0)
      | Some p \<Rightarrow>
          (case re_search e p (stdout r) of
             Inl x \<Rightarrow> (Raised x, s0)
           | Inr m \<Rightarrow> if m then (Exited 1, emit [Log ERROR] s0) else (Returned, s0)))"

definition error_if_not :: "env \<Rightarrow> command \<Rightarrow> result \<Rightarrow> engine \<Rightarrow> outcome \<times> engine" where
  "error_if_not e c r s =
     (let s0 = emit [Eval ErrorIfNot] s in
      case error_if_not_pat c of
        None \<Rightarrow> (Returned, s0)
      | Some p \<Rightarrow>
          (case re_search e p (stdout r) of
             Inl x \<Rightarrow> (Raised x, s0)
           | Inr m \<Rightarrow> if \<not> m then (Exited 1, emit [Log ERROR] s0) else (Returned, s0)))"

text \<open>
  \<^verbatim>\<open>exec\<close>, \<^verbatim>\<open>loop_if\<close> and \<^verbatim>\<open>loop_if_not\<close> call each other. Only the invocation of the
  primitive is inside the \<^verbatim>\<open>try\<close>; an \<^verbatim>\<open>exit\<close> or an exception of a later step ends every
  enclosing call. After a retry started by \<^verbatim>\<open>loop_if\<close> has returned, the outer \<^verbatim>\<open>exec\<close> goes on
  to \<^verbatim>\<open>loop_if_not\<close> with its own, older result.

  A retry is a recursive call, \<^verbatim>\<open>self.exec(command)\<close> from inside \<^verbatim>\<open>loop_if\<close> or \<^verbatim>\<open>loop_if_not\<close>,
  so the stack is as deep as the retries are many. A retry that no longer fits on the stack
  ends in \<^verbatim>\<open>RecursionError\<close>, which nothing catches. The interpreter raises it in whichever
  call first exceeds the limit; the model raises it at the recursive call, the one call whose
  depth grows with the retries. When the nested \<^verbatim>\<open>exec\<close> is left, the stack is as deep as it
  was before.
\<close>

function exec :: "env \<Rightarrow> command \<Rightarrow> engine \<Rightarrow> outcome \<times> engine"
  and loop_if :: "env \<Rightarrow> command \<Rightarrow> result \<Rightarrow> engine \<Rightarrow> outcome \<times> engine"
  and loop_if_not :: "env \<Rightarrow> command \<Rightarrow> result \<Rightarrow> engine \<Rightarrow> outcome \<times> engine"
where
  "exec e c s =
     (let s1 = log_command c s;
          s2 = s1\<lparr>calls := calls s1 + 1, trace := trace s1 @ [ExecCmd]\<rparr>;
          r = (case exec_cmd e (calls s1) c of
                 Inr (out, rc) \<Rightarrow> \<lparr>stdout = PStr out, returncode = rc\<rparr>
               | Inl msg \<Rightarrow> \<lparr>stdout = PExc (ExecException msg), returncode = 1\<rparr>)
      in if returncode r \<noteq> 0 \<and> exit_on_error c
         then (Exited 1, emit [Log ERROR, Log DEBUG] s2)
         else
          (let s3 = set_variable ''RESULT_STDOUT'' (stdout r) s2;
               s4 = set_variable ''RESULT_RETURNCODE'' (PStr (str_int (returncode r))) s3;
               s5 = emit [Output] s4;
               s6 = save_output e c r s5
           in case error_if e c r s6 of
                (Returned, s7) \<Rightarrow>
                  (case error_if_not e c r s7 of
                     (Returned, s8) \<Rightarrow>
                       (case loop_if e c r s8 of
                          (Returned, s9) \<Rightarrow> loop_if_not e c r s9
                        | (Exited n, s9) \<Rightarrow> (Exited n, s9)
                        | (Raised x, s9) \<Rightarrow> (Raised x, s9))
                   | (Exited n, s8) \<Rightarrow> (Exited n, s8)
                   | (Raised x, s8) \<Rightarrow> (Raised x, s8))
              | (Exited n, s7) \<Rightarrow> (Exited n, s7)
              | (Raised x, s7) \<Rightarrow> (Raised x, s7)))"
| "loop_if e c r s =
     (let s0 = emit [Eval LoopIf] s in
      case loop_if_pat c of
        None \<Rightarrow> (Returned, s0)
      | Some p \<Rightarrow>
          (case re_search e p (stdout r) of
             Inl x \<Rightarrow> (Raised x, s0)
           | Inr m \<Rightarrow>
               if m then
                 (let s1 = emit [Log WARN] s0 in
                  case variable_to_int ''loop_count'' (loop_count c) of
                    Inl x \<Rightarrow> (Raised x, s1)
                  | Inr n \<Rightarrow>
                      if run_count s1 < n then
                        (let s2 = s1\<lparr>run_count := run_count s1 + 1\<rparr> in
                         case cmdcfg e of
                           None \<Rightarrow> (Raised AttributeError, s2)
                         | Some cfg \<Rightarrow>
                             (let s3 = emit [Sleep (loop_sleep cfg)] s2 in
                              if depth s3 < recursion_limit e then
                                (case exec e c (s3\<lparr>depth := depth s3 + 1\<rparr>) of
                                   (out, s4) \<Rightarrow> (out, s4\<lparr>depth := depth s3\<rparr>))
                              else (Raised RecursionError, s3)))
                      else (Exited 1, emit [Log ERROR] s1))
               else (Returned, emit [Log DEBUG] s0)))"
| "loop_if_not e c r s =
     (let s0 = emit [Eval LoopIfNot] s in
      case loop_if_not_pat c of
        None \<Rightarrow> (Returned, s0)
      | Some p \<Rightarrow>
          (case re_search e p (stdout r) of
             Inl x \<Rightarrow> (Raised x, s0)
           | Inr m \<Rightarrow>
               if \<not> m then
                 (let s1 = emit [Log WARN] s0 in
                  case variable_to_int ''loop_count'' (loop_count c) of
                    Inl x \<Rightarrow> (Raised x, s1)
                  | Inr n \<Rightarrow>
                      if run_count s1 < n then
                        (let s2 = s1\<lparr>run_count := run_count s1 + 1\<rparr> in
                         case cmdcfg e of
                           None \<Rightarrow> (Raised AttributeError, s2)
                         | Some cfg \<Rightarrow>
                             (let s3 = emit [Sleep (loop_sleep cfg)] s2 in
                              if depth s3 < recursion_limit e then
                                (case exec e c (s3\<lparr>depth := depth s3 + 1\<rparr>) of
                                   (out, s4) \<Rightarrow> (out, s4\<lparr>depth := depth s3\<rparr>))
                              else (Raised RecursionError, s3)))
                      else (Exited 1, emit [Log ERROR] s1))
               else (Returned, emit [Log DEBUG] s0)))"
  by pat_completeness auto

text \<open>
  Names for the intermediate values of one pass of \<^verbatim>\<open>exec\<close>: the result of the \<^verbatim>\<open>try\<close> block,
  the state after it, and the state after the result has been published, emitted and saved.
\<close>

definition attempt :: "env \<Rightarrow> command \<Rightarrow> engine \<Rightarrow> result" where
  "attempt e c s =
     (case exec_cmd e (calls (log_command c s)) c of
        Inr (out, rc) \<Rightarrow> \<lparr>stdout = PStr out, returncode = rc\<rparr>
      | Inl msg \<Rightarrow> \<lparr>stdout = PExc (ExecException msg), returncode = 1\<rparr>)"

definition attempted :: "command \<Rightarrow> engine \<Rightarrow> engine" where
  "attempted c s = (log_command c s)\<lparr>calls := calls (log_command c s) + 1, trace := trace (log_command c s) @ [ExecCmd]\<rparr>"

definition published :: "env \<Rightarrow> command \<Rightarrow> result \<Rightarrow> engine \<Rightarrow> engine" where
  "published e c r s =
     save_output e c r (emit [Output]
       (set_variable ''RESULT_RETURNCODE'' (PStr (str_int (returncode r)))
         (set_variable ''RESULT_STDOUT'' (stdout r) s)))"

subsection \<open>Termination: the run counter never decreases\<close>

lemma run_count_emit [simp]: "run_count (emit es s) = run_count s"
  by (simp add: emit_def)

lemma run_count_set_variable [simp]: "run_count (set_variable n v s) = run_count s"
  by (simp add: set_variable_def)

lemma run_count_log_command [simp]: "run_count (log_command c s) = run_count s"
  by (simp add: log_command_def)

lemma run_count_save_output [simp]: "run_count (save_output e c r s) = run_count s"
  by (simp add: save_output_def split: option.splits pyval.splits)

lemma run_count_error_if: "error_if e c r s = (out, s') \<Longrightarrow> run_count s' = run_count s"
  by (auto simp: error_if_def Let_def split: option.splits sum.splits if_splits)

lemma run_count_error_if_not: "error_if_not e c r s = (out, s') \<Longrightarrow> run_count s' = run_count s"
  by (auto simp: error_if_not_def Let_def split: option.splits sum.splits if_splits)

lemma run_count_attempted [simp]: "run_count (attempted c s) = run_count s"
  by (simp add: attempted_def)

lemma run_count_published [simp]: "run_count (published e c r s) = run_count s"
  by (simp add: published_def)

lemma exec_psimp_steps:
  "exec_loop_if_loop_if_not_dom (Inl (e, c, s)) \<Longrightarrow>
   exec e c s =
     (if returncode (attempt e c s) \<noteq> 0 \<and> exit_on_error c
      then (Exited 1, emit [Log ERROR, Log DEBUG] (attempted c s))
      else case error_if e c (attempt e c s) (published e c (attempt e c s) (attempted c s)) of
             (Returned, s7) \<Rightarrow>
               (case error_if_not e c (attempt e c s) s7 of
                  (Returned, s8) \<Rightarrow>
                    (case loop_if e c (attempt e c s) s8 of
                       (Returned, s9) \<Rightarrow> loop_if_not e c (attempt e c s) s9
                     | (Exited n, s9) \<Rightarrow> (Exited n, s9)
                     | (Raised x, s9) \<Rightarrow> (Raised x, s9))
                | (Exited n, s8) \<Rightarrow> (Exited n, s8)
                | (Raised x, s8) \<Rightarrow> (Raised x, s8))
           | (Exited n, s7) \<Rightarrow> (Exited n, s7)
           | (Raised x, s7) \<Rightarrow> (Raised x, s7))"
  by (simp only: exec.psimps Let_def attempt_def attempted_def published_def)

lemma run_count_mono_dom:
  "exec_loop_if_loop_if_not_dom (Inl (e, c, s)) \<Longrightarrow> run_count s \<le> run_count (snd (exec e c s))"
  "exec_loop_if_loop_if_not_dom (Inr (Inl (e, c, r, s))) \<Longrightarrow> run_count s \<le> run_count (snd (loop_if e c r s))"
  "exec_loop_if_loop_if_not_dom (Inr (Inr (e, c, r, s))) \<Longrightarrow> run_count s \<le> run_count (snd (loop_if_not e c r s))"
proof (induct rule: exec_loop_if_loop_if_not.pinduct)
  case (1 e c s)
  define r where "r = attempt e c s"
  define s6 where "s6 = published e c r (attempted c s)"
  have rdef: "r = (case exec_cmd e (calls (log_command c s)) c of
                 Inl msg \<Rightarrow> \<lparr>stdout = PExc (ExecException msg), returncode = 1\<rparr>
               | Inr (out, rc) \<Rightarrow> \<lparr>stdout = PStr out, returncode = rc\<rparr>)"
    by (simp add: r_def attempt_def)
  have s6def: "s6 = save_output e c r (emit [Output]
       (set_variable ''RESULT_RETURNCODE'' (PStr (str_int (returncode r)))
         (set_variable ''RESULT_STDOUT'' (stdout r)
           ((log_command c s)\<lparr>calls := calls (log_command c s) + 1, trace := trace (log_command c s) @ [ExecCmd]\<rparr>))))"
    by (simp add: s6_def published_def attempted_def)
  have s6rc: "run_count s6 = run_count s" by (simp add: s6_def)
  note ex = exec_psimp_steps[OF 1(1), folded r_def, folded s6_def]
  show ?case
  proof (cases "returncode r \<noteq> 0 \<and> exit_on_error c")
    case True
    then show ?thesis by (simp add: ex)
  next
    case False
    obtain o1 s7 where e1: "error_if e c r s6 = (o1, s7)" by (cases "error_if e c r s6")
    have s7rc: "run_count s7 = run_count s" using run_count_error_if[OF e1] s6rc by simp
    show ?thesis
    proof (cases "o1 = Returned")
      case o1: True
      obtain o2 s8 where e2: "error_if_not e c r s7 = (o2, s8)" by (cases "error_if_not e c r s7")
      have s8rc: "run_count s8 = run_count s" using run_count_error_if_not[OF e2] s7rc by simp
      show ?thesis
      proof (cases "o2 = Returned")
        case o2: True
        obtain o3 s9 where e3: "loop_if e c r s8 = (o3, s9)" by (cases "loop_if e c r s8")
        have ih1: "run_count s8 \<le> run_count (snd (loop_if e c r s8))"
          by (rule 1(2)[OF refl refl rdef False refl refl refl s6def e1[symmetric] o1 e2[symmetric] o2])
        show ?thesis
        proof (cases "o3 = Returned")
          case o3: True
          have ih2: "run_count s9 \<le> run_count (snd (loop_if_not e c r s9))"
            by (rule 1(3)[OF refl refl rdef False refl refl refl s6def e1[symmetric] o1 e2[symmetric] o2 e3[symmetric] o3])
          show ?thesis
            using False e1 o1 e2 o2 e3 o3 ih1 ih2 s8rc by (simp add: ex)
        next
          case no3: False
          then show ?thesis using False e1 o1 e2 o2 e3 ih1 s8rc
            by (cases o3) (simp_all add: ex)
        qed
      next
        case False
        then show ?thesis using \<open>\<not> (returncode r \<noteq> 0 \<and> exit_on_error c)\<close> e1 o1 e2 s8rc
          by (cases o2) (simp_all add: ex)
      qed
    next
      case False
      then show ?thesis using \<open>\<not> (returncode r \<noteq> 0 \<and> exit_on_error c)\<close> e1 s7rc
        by (cases o1) (simp_all add: ex)
    qed
  qed
next
  case (2 e c r s)
  note ps = loop_if.psimps[OF 2(1)]
  show ?case
  proof (cases "loop_if_pat c")
    case None
    then show ?thesis by (simp add: ps Let_def)
  next
    case (Some p)
    show ?thesis
    proof (cases "re_search e p (stdout r)")
      case (Inl x)
      then show ?thesis using Some by (simp add: ps Let_def)
    next
      case (Inr m)
      show ?thesis
      proof (cases "m")
        case False
        then show ?thesis using Some Inr by (simp add: ps Let_def)
      next
        case m: True
        show ?thesis
        proof (cases "variable_to_int ''loop_count'' (loop_count c)")
          case (Inl x)
          then show ?thesis using Some Inr m by (simp add: ps Let_def)
        next
          case n: (Inr n)
          show ?thesis
          proof (cases "run_count s < n")
            case False
            then show ?thesis using Some Inr m n by (simp add: ps Let_def)
          next
            case lt: True
            show ?thesis
            proof (cases "cmdcfg e")
              case None
              then show ?thesis using Some Inr m n lt by (simp add: ps Let_def)
            next
              case cfg: (Some cfg)
              have lt': "run_count (emit [Log WARN] (emit [Eval LoopIf] s)) < n"
                using lt by simp
              let ?s3 = "emit [Sleep (loop_sleep cfg)] ((emit [Log WARN] (emit [Eval LoopIf] s))\<lparr>run_count := run_count (emit [Log WARN] (emit [Eval LoopIf] s)) + 1\<rparr>)"
              show ?thesis
              proof (cases "depth ?s3 < recursion_limit e")
                case False
                then show ?thesis using Some Inr m n lt cfg by (simp add: ps Let_def)
              next
                case d: True
                have "run_count (?s3\<lparr>depth := depth ?s3 + 1\<rparr>)
                        \<le> run_count (snd (exec e c (?s3\<lparr>depth := depth ?s3 + 1\<rparr>)))"
                  by (rule 2(2)[OF refl Some Inr m refl n lt' refl cfg refl d])
                then show ?thesis using Some Inr m n lt cfg d by (simp add: ps Let_def split_beta)
              qed
            qed
          qed
        qed
      qed
    qed
  qed
next
  case (3 e c r s)
  note ps = loop_if_not.psimps[OF 3(1)]
  show ?case
  proof (cases "loop_if_not_pat c")
    case None
    then show ?thesis by (simp add: ps Let_def)
  next
    case (Some p)
    show ?thesis
    proof (cases "re_search e p (stdout r)")
      case (Inl x)
      then show ?thesis using Some by (simp add: ps Let_def)
    next
      case (Inr m)
      show ?thesis
      proof (cases "\<not> m")
        case False
        then show ?thesis using Some Inr by (simp add: ps Let_def)
      next
        case m: True
        show ?thesis
        proof (cases "variable_to_int ''loop_count'' (loop_count c)")
          case (Inl x)
          then show ?thesis using Some Inr m by (simp add: ps Let_def)
        next
          case n: (Inr n)
          show ?thesis
          proof (cases "run_count s < n")
            case False
            then show ?thesis using Some Inr m n by (simp add: ps Let_def)
          next
            case lt: True
            show ?thesis
            proof (cases "cmdcfg e")
              case None
              then show ?thesis using Some Inr m n lt by (simp add: ps Let_def)
            next
              case cfg: (Some cfg)
              have lt': "run_count (emit [Log WARN] (emit [Eval LoopIfNot] s)) < n"
                using lt by simp
              let ?s3 = "emit [Sleep (loop_sleep cfg)] ((emit [Log WARN] (emit [Eval LoopIfNot] s))\<lparr>run_count := run_count (emit [Log WARN] (emit [Eval LoopIfNot] s)) + 1\<rparr>)"
              show ?thesis
              proof (cases "depth ?s3 < recursion_limit e")
                case False
                then show ?thesis using Some Inr m n lt cfg by (simp add: ps Let_def)
              next
                case d: True
                have "run_count (?s3\<lparr>depth := depth ?s3 + 1\<rparr>)
                        \<le> run_count (snd (exec e c (?s3\<lparr>depth := depth ?s3 + 1\<rparr>)))"
                  by (rule 3(2)[OF refl Some Inr m refl n lt' refl cfg refl d])
                then show ?thesis using Some Inr m n lt cfg d by (simp add: ps Let_def split_beta)
              qed
            qed
          qed
        qed
      qed
    qed
  qed
qed

termination exec
proof (relation "measure (\<lambda>x. case x of
          Inl (e, c, s) \<Rightarrow> 2 * ((case variable_to_int ''loop_count'' (loop_count c) of Inr n \<Rightarrow> n | Inl x \<Rightarrow> 0) - run_count s) + 2
        | Inr (Inl (e, c, r, s)) \<Rightarrow> 2 * ((case variable_to_int ''loop_count'' (loop_count c) of Inr n \<Rightarrow> n | Inl x \<Rightarrow> 0) - run_count s) + 1
        | Inr (Inr (e, c, r, s)) \<Rightarrow> 2 * ((case variable_to_int ''loop_count'' (loop_count c) of Inr n \<Rightarrow> n | Inl x \<Rightarrow> 0) - run_count s) + 1)", goal_cases)
  case 1
  then show ?case by simp
next
  case (2 e c s x xa xb xc xd xe xf xg y xh ya)
  have "run_count y = run_count xf"
    using 2 by (metis run_count_error_if)
  moreover have "run_count ya = run_count y"
    using 2 by (metis run_count_error_if_not)
  moreover have "run_count xf = run_count s"
    using 2 by simp
  ultimately show ?case by simp
next
  case (3 e c s x xa xb xc xd xe xf xg y xh ya xi yb)
  have "run_count y = run_count xf"
    using 3 by (metis run_count_error_if)
  moreover have "run_count ya = run_count y"
    using 3 by (metis run_count_error_if_not)
  moreover have "run_count xf = run_count s"
    using 3 by simp
  moreover have "run_count ya \<le> run_count (snd (loop_if e c xb ya))"
    using 3 by (intro run_count_mono_dom(2))
  moreover have "snd (loop_if e c xb ya) = yb"
    using 3 by (metis snd_conv)
  ultimately show ?case by simp
next
  case (4 e c r s x x2 b xa ba xb x2a)
  then show ?case by simp
next
  case (5 e c r s x x2 b xa ba xb x2a)
  then show ?case by simp
qed

text \<open>
  \<^verbatim>\<open>run\<close>: the run counter is set to 1, the command at address \<open>a\<close> is copied and substituted
  against the current Variable Store, and the copy is executed.
\<close>

definition run :: "env \<Rightarrow> heap \<Rightarrow> nat \<Rightarrow> engine \<Rightarrow> outcome \<times> heap \<times> engine" where
  "run e h a s =
     (let s1 = emit [Log DEBUG] (s\<lparr>run_count := 1\<rparr>) in
      case replace_variables e (varstore s1) h a of
        Inl x \<Rightarrow> (Raised x, h, s1)
      | Inr (h', t) \<Rightarrow> (let (out, s') = exec e (commands h' ! t) s1 in (out, h', s')))"

section \<open>The Session Store\<close>

text \<open>
  \<open>sessions\<close> is the directory, \<open>queue\<close> the attribute \<^verbatim>\<open>self.queue\<close> (\<^verbatim>\<open>None\<close> or a reference to a
  shared queue), \<open>queues\<close> the contents of the shared queues by reference, oldest entry first.
  The live registry is external and refetched on every access of \<^verbatim>\<open>msfsessions.list\<close>: it is
  a function from the number of earlier accesses (\<open>reads\<close>) to the listing, pairs of session
  handle and \<^verbatim>\<open>exploit_uuid\<close> in the dict's order. The model is sequential: a queue holds
  what was put before the call.
\<close>

record msfstore = effects +
  sessions :: "string \<rightharpoonup> string"
  queue :: "nat option"
  get_session_wait_time :: nat
  queues :: "nat \<Rightarrow> (string \<times> string) list"
  reads :: nat

definition add_session :: "string \<Rightarrow> string \<Rightarrow> msfstore \<Rightarrow> msfstore" where
  "add_session name uuid s = (emit [Log DEBUG] s)\<lparr>sessions := (sessions s)(name \<mapsto> uuid)\<rparr>"

text \<open>The inner loop of \<^verbatim>\<open>get_session_by_name\<close>: \<^verbatim>\<open>while not self.queue.empty()\<close>.\<close>

function drain_queue :: "nat \<Rightarrow> msfstore \<Rightarrow> msfstore" where
  "drain_queue q s =
     (case queues s q of
        [] \<Rightarrow> s
      | item # rest \<Rightarrow>
          (let s1 = s\<lparr>queues := (queues s)(q := rest)\<rparr>;
               s2 = emit [Log DEBUG] s1;
               s3 = add_session (fst item) (snd item) s2;
               s4 = emit [Sleep (get_session_wait_time s3)] s3
           in drain_queue q s4))"
  by pat_completeness auto
termination
  by (relation "measure (\<lambda>(q, s). length (queues s q))")
     (simp_all add: add_session_def emit_def)

declare drain_queue.simps [simp del]

text \<open>
  The \<^verbatim>\<open>for\<close> loop of \<^verbatim>\<open>get_session_by_name\<close> over the listing: the first handle whose
  \<^verbatim>\<open>exploit_uuid\<close> is the directory's entry for \<open>name\<close>.
\<close>

fun find_session :: "(string \<rightharpoonup> string) \<Rightarrow> string \<Rightarrow> (string \<times> string) list \<Rightarrow> string option" where
  "find_session ss name [] = None"
| "find_session ss name ((k, u) # rest) =
     (case ss name of
        None \<Rightarrow> find_session ss name rest
      | Some x \<Rightarrow> if u = x then Some k else find_session ss name rest)"

text \<open>
  A call that never returns has the value \<open>None\<close>; one that returns gives the handle or the
  exception raised, and the store it leaves.
\<close>

partial_function (option) get_session_by_name ::
  "string \<Rightarrow> (nat \<Rightarrow> (string \<times> string) list) \<Rightarrow> bool \<Rightarrow> msfstore
     \<Rightarrow> ((exn + string) \<times> msfstore) option"
where
  "get_session_by_name name msfsessions block s =
     (let s1 = (case queue s of None \<Rightarrow> s | Some q \<Rightarrow> drain_queue q s);
          listing = msfsessions (reads s1);
          s2 = s1\<lparr>reads := reads s1 + 1\<rparr>
      in case find_session (sessions s2) name listing of
           Some k \<Rightarrow> Some (Inr k, s2)
         | None \<Rightarrow>
             if \<not> block
             then Some (Inl (ExecException (''Session ('' @ name @ '') not found'')), s2)
             else get_session_by_name name msfsessions block (emit [Sleep 3] s2))"

definition add_or_queue_session ::
  "string \<Rightarrow> string \<Rightarrow> nat option \<Rightarrow> string \<Rightarrow> msfstore \<Rightarrow> msfstore"
where
  "add_or_queue_session name uuid qu session_id s =
     (case qu of
        Some q \<Rightarrow> s\<lparr>queues := (queues s)(q := queues s q @ [(name, uuid)])\<rparr>
      | None \<Rightarrow>
          emit [Log DEBUG, Sleep 30]
            (set_variable ''LAST_MSF_SESSION'' (PStr session_id)
              (emit [Log DEBUG] (add_session name uuid s))))"

text \<open>
  The \<^verbatim>\<open>while True\<close> loop of \<^verbatim>\<open>wait_for_session\<close>. It reads the registry once for the length
  test and, when that is positive, once more for the scan.
\<close>

partial_function (option) wait_for_session_poll ::
  "string \<Rightarrow> string \<Rightarrow> (nat \<Rightarrow> (string \<times> string) list) \<Rightarrow> nat option \<Rightarrow> msfstore
     \<Rightarrow> msfstore option"
where
  "wait_for_session_poll name uuid msfsessions qu s =
     (if length (msfsessions (reads s)) > 0 then
        (case find (\<lambda>(session_id, u). u = uuid) (msfsessions (reads s + 1)) of
           Some (session_id, u) \<Rightarrow>
             Some (add_or_queue_session name uuid qu session_id (s\<lparr>reads := reads s + 2\<rparr>))
         | None \<Rightarrow> wait_for_session_poll name uuid msfsessions qu (s\<lparr>reads := reads s + 2\<rparr>))
      else wait_for_session_poll name uuid msfsessions qu (s\<lparr>reads := reads s + 1\<rparr>))"

definition wait_for_session ::
  "string \<Rightarrow> string \<Rightarrow> (nat \<Rightarrow> (string \<times> string) list) \<Rightarrow> nat option \<Rightarrow> msfstore
     \<Rightarrow> msfstore option"
where
  "wait_for_session name uuid msfsessions qu s =
     wait_for_session_poll name uuid msfsessions qu ((emit [Log DEBUG] s)\<lparr>reads := reads s + 1\<rparr>)"

text \<open>
  The loop of \<^verbatim>\<open>wait_for_increased_session\<close>; \<open>known\<close> is the snapshot of the handles. The
  \<^verbatim>\<open>uuid\<close> argument of the source is not used by it: the id registered is the new handle's.
\<close>

partial_function (option) wait_for_increased_session_poll ::
  "string \<Rightarrow> (nat \<Rightarrow> (string \<times> string) list) \<Rightarrow> nat option \<Rightarrow> nat \<Rightarrow> string list \<Rightarrow> msfstore
     \<Rightarrow> msfstore option"
where
  "wait_for_increased_session_poll name msfsessions qu stored_list_len known s =
     (if length (msfsessions (reads s)) > stored_list_len then
        (case find (\<lambda>(session_id, u). session_id \<notin> set known) (msfsessions (reads s + 1)) of
           Some (session_id, u) \<Rightarrow>
             Some ((emit [Log DEBUG]
                     (add_or_queue_session name u qu session_id (s\<lparr>reads := reads s + 2\<rparr>)))
                   \<lparr>reads := reads s + 3\<rparr>)
         | None \<Rightarrow>
             wait_for_increased_session_poll name msfsessions qu stored_list_len known
               (s\<lparr>reads := reads s + 2\<rparr>))
      else wait_for_increased_session_poll name msfsessions qu stored_list_len known
             (s\<lparr>reads := reads s + 1\<rparr>))"

definition wait_for_increased_session ::
  "string \<Rightarrow> string \<Rightarrow> (nat \<Rightarrow> (string \<times> string) list) \<Rightarrow> nat option \<Rightarrow> msfstore
     \<Rightarrow> msfstore option"
where
  "wait_for_increased_session name uuid msfsessions qu s =
     wait_for_increased_session_poll name msfsessions qu
       (length (msfsessions (reads s))) (map fst (msfsessions (reads s + 1)))
       (s\<lparr>reads := reads s + 2\<rparr>)"

section \<open>Vocabulary for the claims\<close>

text \<open>
  \<open>found\<close>: the pattern is set, compiles, and \<^verbatim>\<open>re.search\<close> finds it in the text.
  \<open>missing\<close>: it is set, compiles, and is not found. \<open>events_since s s'\<close> are the effects
  recorded after \<open>s\<close> in \<open>s'\<close>.
\<close>

definition found :: "env \<Rightarrow> string option \<Rightarrow> string \<Rightarrow> bool" where
  "found e pat t =
     (case pat of
        None \<Rightarrow> False
      | Some p \<Rightarrow> (case regex e p of None \<Rightarrow> False | Some m \<Rightarrow> m t))"

definition missing :: "env \<Rightarrow> string option \<Rightarrow> string \<Rightarrow> bool" where
  "missing e pat t =
     (case pat of
        None \<Rightarrow> False
      | Some p \<Rightarrow> (case regex e p of None \<Rightarrow> False | Some m \<Rightarrow> \<not> m t))"

text \<open>
  Conditions on the \<open>k\<close>-th invocation of the primitive for command \<open>c\<close>: it returns text
  (and a status that does not trigger exit-on-error) on which neither error predicate ends
  the run, and then \<^verbatim>\<open>loop_if\<close> asks for a retry, or \<^verbatim>\<open>loop_if\<close> stays quiet and \<^verbatim>\<open>loop_if_not\<close>
  asks for one.
\<close>

definition passes_errors :: "env \<Rightarrow> command \<Rightarrow> string \<Rightarrow> bool" where
  "passes_errors e c t =
     ((error_if_pat c = None \<or> missing e (error_if_pat c) t)
      \<and> (error_if_not_pat c = None \<or> found e (error_if_not_pat c) t))"

definition loop_if_fires :: "env \<Rightarrow> command \<Rightarrow> nat \<Rightarrow> bool" where
  "loop_if_fires e c k =
     (case exec_cmd e k c of
        Inl msg \<Rightarrow> False
      | Inr (t, rc) \<Rightarrow>
          (rc = 0 \<or> \<not> exit_on_error c) \<and> passes_errors e c t \<and> found e (loop_if_pat c) t)"

definition loop_if_not_fires :: "env \<Rightarrow> command \<Rightarrow> nat \<Rightarrow> bool" where
  "loop_if_not_fires e c k =
     (case exec_cmd e k c of
        Inl msg \<Rightarrow> False
      | Inr (t, rc) \<Rightarrow>
          (rc = 0 \<or> \<not> exit_on_error c) \<and> passes_errors e c t
          \<and> (loop_if_pat c = None \<or> missing e (loop_if_pat c) t)
          \<and> missing e (loop_if_not_pat c) t)"

text \<open>
  What the copy made by \<^verbatim>\<open>replace_variables\<close> holds for an attribute value \<open>v\<close> of the original,
  where \<open>cs\<close> are the containers before the call, \<open>cs'\<close> those after it and \<open>base\<close> the first
  address allocated by the call. \<open>copied\<close>: the same text or scalar, or a reference to a
  container allocated by the call with the contents of the original's. \<open>substituted\<close>: text
  is substituted; a dict is a container allocated by the call whose text values are
  substituted, under the same keys in the same order; a scalar or a list is as in \<open>copied\<close>.
\<close>

definition copied :: "nat \<Rightarrow> container list \<Rightarrow> container list \<Rightarrow> val \<Rightarrow> val \<Rightarrow> bool" where
  "copied base cs cs' v v' =
     (case v of
        VStr x \<Rightarrow> v' = VStr x
      | VAtom x \<Rightarrow> v' = VAtom x
      | VRef d \<Rightarrow> (\<exists>d'. v' = VRef d' \<and> base \<le> d' \<and> d' < length cs' \<and> cs' ! d' = cs ! d))"

definition substituted ::
  "env \<Rightarrow> (string \<times> pyval) list \<Rightarrow> nat \<Rightarrow> container list \<Rightarrow> container list \<Rightarrow> val \<Rightarrow> val \<Rightarrow> bool"
where
  "substituted e vs base cs cs' v v' =
     (case v of
        VStr x \<Rightarrow> v' = VStr (substitute e vs x)
      | VAtom x \<Rightarrow> v' = VAtom x
      | VRef d \<Rightarrow>
          (\<exists>d'. v' = VRef d' \<and> base \<le> d' \<and> d' < length cs'
                \<and> cs' ! d' = (case cs ! d of
                                 Dict items \<Rightarrow> Dict (substitute_items e vs items)
                               | PyList xs \<Rightarrow> PyList xs)))"

text \<open>
  \<open>filled e vs cs0 D c c' cs\<close>: the command \<open>c'\<close> has exactly the attributes of \<open>c\<close>; those named
  in \<open>D\<close> hold the substituted value, the others a copy.
\<close>

definition filled ::
  "env \<Rightarrow> (string \<times> pyval) list \<Rightarrow> container list \<Rightarrow> string set \<Rightarrow> command \<Rightarrow> command
     \<Rightarrow> container list \<Rightarrow> bool"
where
  "filled e vs cs0 D c c' cs \<longleftrightarrow>
     (\<forall>m. case getattr c m of
             None \<Rightarrow> getattr c' m = None
           | Some v \<Rightarrow>
               (\<exists>v'. getattr c' m = Some v'
                  \<and> (if m \<in> D then substituted e vs (length cs0) cs0 cs v v'
                      else copied (length cs0) cs0 cs v v')))"

text \<open>The directory after the pending entries have been merged into it, oldest first.\<close>

definition merged :: "(string \<times> string) list \<Rightarrow> (string \<rightharpoonup> string) \<Rightarrow> (string \<rightharpoonup> string)" where
  "merged items ss = foldl (\<lambda>m item. m(fst item \<mapsto> snd item)) ss items"

text \<open>
  The polls of the two waiting loops. An iteration that starts at read \<open>r\<close> and finds nothing
  leaves the next one to start at \<open>next_poll live n r\<close> (\<open>n\<close> is the length the listing has to
  exceed: 0 for \<^verbatim>\<open>wait_for_session\<close>, the stored length for \<^verbatim>\<open>wait_for_increased_session\<close>).
  \<open>session_found\<close> and \<open>fresh_found\<close> say that the iteration starting at \<open>r\<close> finds its match.
\<close>

definition next_poll :: "(nat \<Rightarrow> (string \<times> string) list) \<Rightarrow> nat \<Rightarrow> nat \<Rightarrow> nat" where
  "next_poll live n r = (if length (live r) > n then r + 2 else r + 1)"

definition session_found :: "(nat \<Rightarrow> (string \<times> string) list) \<Rightarrow> string \<Rightarrow> nat \<Rightarrow> bool" where
  "session_found live uuid r =
     (length (live r) > 0 \<and> find (\<lambda>(session_id, u). u = uuid) (live (r + 1)) \<noteq> None)"

definition fresh_found ::
  "(nat \<Rightarrow> (string \<times> string) list) \<Rightarrow> string list \<Rightarrow> nat \<Rightarrow> nat \<Rightarrow> bool"
where
  "fresh_found live known n r =
     (length (live r) > n
      \<and> find (\<lambda>(session_id, u). session_id \<notin> set known) (live (r + 1)) \<noteq> None)"

text \<open>
  \<open>matched\<close> and \<open>fresh\<close> are what the scan of the iteration starting at read \<open>r\<close> stops at: the
  first entry of the listing with the correlation id waited for, and the first entry whose
  handle is not in the snapshot. \<open>session_poll\<close> and \<open>fresh_poll\<close> say that, of the iterations of
  a loop whose first one starts at read \<open>r0\<close>, iteration \<open>i\<close> (counted from 0) is the first to
  find its match.
\<close>

definition matched :: "(nat \<Rightarrow> (string \<times> string) list) \<Rightarrow> string \<Rightarrow> nat \<Rightarrow> (string \<times> string) option" where
  "matched live uuid r = find (\<lambda>(session_id, u). u = uuid) (live (r + 1))"

definition fresh ::
  "(nat \<Rightarrow> (string \<times> string) list) \<Rightarrow> string list \<Rightarrow> nat \<Rightarrow> (string \<times> string) option"
where
  "fresh live known r = find (\<lambda>(session_id, u). session_id \<notin> set known) (live (r + 1))"

definition session_poll :: "(nat \<Rightarrow> (string \<times> string) list) \<Rightarrow> string \<Rightarrow> nat \<Rightarrow> nat \<Rightarrow> bool" where
  "session_poll live uuid r0 i \<longleftrightarrow>
     session_found live uuid ((next_poll live 0 ^^ i) r0)
     \<and> (\<forall>j<i. \<not> session_found live uuid ((next_poll live 0 ^^ j) r0))"

definition fresh_poll ::
  "(nat \<Rightarrow> (string \<times> string) list) \<Rightarrow> string list \<Rightarrow> nat \<Rightarrow> nat \<Rightarrow> nat \<Rightarrow> bool"
where
  "fresh_poll live known n r0 i \<longleftrightarrow>
     fresh_found live known n ((next_poll live n ^^ i) r0)
     \<and> (\<forall>j<i. \<not> fresh_found live known n ((next_poll live n ^^ j) r0))"

definition events_since :: "'a effects_scheme \<Rightarrow> 'b effects_scheme \<Rightarrow> event list" where
  "events_since s s' = drop (length (trace s)) (trace s')"

text \<open>The state in which \<^verbatim>\<open>exec\<close> reaches \<^verbatim>\<open>loop_if\<close> when both error predicates pass.\<close>

definition at_loop :: "env \<Rightarrow> command \<Rightarrow> result \<Rightarrow> engine \<Rightarrow> engine" where
  "at_loop e c r s = emit [Eval ErrorIf, Eval ErrorIfNot] (published e c r (attempted c s))"

text \<open>
  \<open>drained s\<close> is the store after the queue-draining prologue of \<^verbatim>\<open>get_session_by_name\<close>, and
  \<open>typed_name\<close> says that an attribute name is one of the typed fields of a command.
\<close>

definition drained :: "msfstore \<Rightarrow> msfstore" where
  "drained s = (case queue s of None \<Rightarrow> s | Some q \<Rightarrow> drain_queue q s)"

definition typed_name :: "string \<Rightarrow> bool" where
  "typed_name m \<longleftrightarrow> m \<in> {''cmd'', ''save'', ''exit_on_error'', ''error_if'', ''error_if_not'',
                          ''loop_if'', ''loop_if_not'', ''loop_count''}"

section \<open>Concrete collaborators for the examples\<close>

text \<open>
  For a pattern made of letters and digits only, \<^verbatim>\<open>re.search\<close> is the search for a contiguous
  occurrence.
\<close>

fun starts_with :: "string \<Rightarrow> string \<Rightarrow> bool" where
  "starts_with [] t = True"
| "starts_with (x # p) [] = False"
| "starts_with (x # p) (y # t) = (x = y \<and> starts_with p t)"

fun contains :: "string \<Rightarrow> string \<Rightarrow> bool" where
  "contains p [] = (p = [])"
| "contains p (y # t) = (starts_with p (y # t) \<or> contains p t)"

text \<open>
  A backend that answers its \<open>k\<close>-th invocation with \<open>responses k\<close>, literal patterns, a
  Variable Store that leaves text as it is, writable paths, a retry sleep of 5 seconds and a
  stack on which 493 retries can be nested (the default limit of 1000 frames, at two frames
  to a retry, leaves a little under 500).
\<close>

definition scripted :: "(nat \<Rightarrow> string + (string \<times> int)) \<Rightarrow> env" where
  "scripted responses =
     \<lparr>exec_cmd = (\<lambda>k c. responses k), regex = (\<lambda>p. Some (contains p)),
      substitute = (\<lambda>vs t. t), writable = (\<lambda>p. True), cmdcfg = Some \<lparr>loop_sleep = 5\<rparr>,
      recursion_limit = 493\<rparr>"

definition check_command :: command where
  "check_command =
     \<lparr>cmd = ''check'', save = None, exit_on_error = False, error_if_pat = None,
      error_if_not_pat = None, loop_if_pat = None, loop_if_not_pat = None,
      loop_count = ''3'', extras = [], template_vars = []\<rparr>"

definition idle :: engine where
  "idle = \<lparr>varstore = [], trace = [], run_count = 0, calls = 0, depth = 0\<rparr>"

text \<open>
  The retry scenario: a command that asks for a retry while the output holds \<open>pending\<close>, at
  most 3 attempts, and a backend that answers \<open>pending\<close> every time. The store holds this one
  command at address 0.
\<close>

definition retry_command :: command where
  "retry_command =
     check_command\<lparr>loop_if_pat := Some ''pending'',
                    template_vars := [''cmd'', ''loop_if'', ''loop_count'']\<rparr>"

definition pending_env :: env where
  "pending_env = scripted (\<lambda>k. Inr (''pending'', 0))"

definition store_of :: "command \<Rightarrow> heap" where
  "store_of c = \<lparr>commands = [c], containers = []\<rparr>"

text \<open>
  A command with a dict attribute \<open>options\<close> and a list attribute \<open>tags\<close>, of which \<open>cmd\<close> and
  \<open>options\<close> are template variables, in a store of its own; and a Variable Store that resolves
  \<open>$TARGET\<close> to an address.
\<close>

definition module_command :: command where
  "module_command =
     check_command\<lparr>cmd := ''$TARGET'',
                    extras := [(''options'', VRef 0), (''tags'', VRef 1)],
                    template_vars := [''cmd'', ''options'']\<rparr>"

definition module_store :: heap where
  "module_store =
     \<lparr>commands = [module_command],
      containers = [Dict [(''RHOSTS'', DStr ''$TARGET''), (''RPORT'', DAtom (AInt 445))],
                    PyList [DStr ''$TARGET'']]\<rparr>"

definition target_env :: env where
  "target_env =
     (scripted (\<lambda>k. Inr ([], 0)))
       \<lparr>substitute := (\<lambda>vs t. if t = ''$TARGET'' then ''10.0.0.5'' else t)\<rparr>"

text \<open>
  A Session Store as its constructor leaves it (empty directory, no queue attached, a wait
  of 5 seconds), and a live registry that always lists the one handle \<open>1\<close> with the
  correlation id \<open>uuid-a\<close>.
\<close>

definition new_store :: msfstore where
  "new_store =
     \<lparr>varstore = [], trace = [], sessions = Map.empty, queue = None,
      get_session_wait_time = 5, queues = (\<lambda>q. []), reads = 0\<rparr>"

definition one_session :: "nat \<Rightarrow> (string \<times> string) list" where
  "one_session r = [(''1'', ''uuid-a'')]"

text \<open>
  A live registry in which a second handle, \<open>2\<close> with the correlation id \<open>uuid-b\<close>, appears
  from the third access on.
\<close>

definition growing :: "nat \<Rightarrow> (string \<times> string) list" where
  "growing r = (if r < 2 then [(''1'', ''uuid-a'')] else [(''1'', ''uuid-a''), (''2'', ''uuid-b'')])"

text \<open>The same store with queue 0 attached, in which one entry is pending.\<close>

definition pending_store :: msfstore where
  "pending_store =
     new_store\<lparr>queue := Some 0,
                queues := (\<lambda>q. if q = 0 then [(''beacon1'', ''uuid-b'')] else [])\<rparr>"

text \<open>
  A command that retries until the output holds \<open>READY\<close>, with a \<^verbatim>\<open>loop_count\<close> of 0; the retry
  command with the \<^verbatim>\<open>loop_count\<close> U+00B2 (superscript two); a backend whose every invocation
  raises \<^verbatim>\<open>ExecException("boom")\<close>, and one that returns the text \<open>boom\<close> with status 1.
\<close>

definition ready_command :: command where
  "ready_command =
     check_command\<lparr>loop_if_not_pat := Some ''READY'', loop_count := ''0'',
                    template_vars := [''cmd'', ''loop_if_not'', ''loop_count'']\<rparr>"

definition superscript_command :: command where
  "superscript_command = retry_command\<lparr>loop_count := [CHR 0xB2]\<rparr>"

definition raising_env :: env where
  "raising_env = scripted (\<lambda>k. Inl ''boom'')"

definition failing_env :: env where
  "failing_env = scripted (\<lambda>k. Inr (''boom'', 1))"

declare exec.simps [simp del] loop_if.simps [simp del] loop_if_not.simps [simp del]

section \<open>One pass of the pipeline\<close>

lemma exec_steps:
  "exec e c s =
     (if returncode (attempt e c s) \<noteq> 0 \<and> exit_on_error c
      then (Exited 1, emit [Log ERROR, Log DEBUG] (attempted c s))
      else case error_if e c (attempt e c s) (published e c (attempt e c s) (attempted c s)) of
             (Returned, s7) \<Rightarrow>
               (case error_if_not e c (attempt e c s) s7 of
                  (Returned, s8) \<Rightarrow>
                    (case loop_if e c (attempt e c s) s8 of
                       (Returned, s9) \<Rightarrow> loop_if_not e c (attempt e c s) s9
                     | (Exited n, s9) \<Rightarrow> (Exited n, s9)
                     | (Raised x, s9) \<Rightarrow> (Raised x, s9))
                | (Exited n, s8) \<Rightarrow> (Exited n, s8)
                | (Raised x, s8) \<Rightarrow> (Raised x, s8))
           | (Exited n, s7) \<Rightarrow> (Exited n, s7)
           | (Raised x, s7) \<Rightarrow> (Raised x, s7))"
  by (simp only: exec.simps Let_def attempt_def attempted_def published_def)

lemma attempted_eq:
  "attempted c s = s\<lparr>calls := calls s + 1, trace := trace s @ [Log INFO, ExecCmd]\<rparr>"
  by (simp add: attempted_def log_command_def emit_def)

section \<open>Claims about the Execution Engine\<close>

text \<open>
  C6. When \<^verbatim>\<open>exit_on_error\<close> is set and the result of the attempt has a status other than 0
  (the primitive returned one, or raised and was given status 1), \<^verbatim>\<open>exec\<close> ends the process
  with exit status 1 at once. The state it leaves differs from the one it started in only by
  the invocation of the primitive and three log lines: nothing was published to the Variable
  Store, no file was opened or written, no predicate method was called.
\<close>

theorem exec_exit_on_error_immediate:
  assumes "exit_on_error c" and "returncode (attempt e c s) \<noteq> 0"
  shows "exec e c s =
           (Exited 1,
            s\<lparr>calls := calls s + 1,
              trace := trace s @ [Log INFO, ExecCmd, Log ERROR, Log DEBUG]\<rparr>)"
  using assms by (simp add: exec_steps attempted_eq emit_def)

theorem exec_exit_on_error_immediate_witness:
  "exit_on_error (check_command\<lparr>exit_on_error := True, error_if_pat := Some ''FAIL'', save := Some ''out.txt''\<rparr>)
   \<and> returncode (attempt (scripted (\<lambda>k. Inr (''all FAIL here'', 2)))
        (check_command\<lparr>exit_on_error := True, error_if_pat := Some ''FAIL'', save := Some ''out.txt''\<rparr>) idle) \<noteq> 0
   \<and> exec (scripted (\<lambda>k. Inr (''all FAIL here'', 2)))
        (check_command\<lparr>exit_on_error := True, error_if_pat := Some ''FAIL'', save := Some ''out.txt''\<rparr>) idle
       = (Exited 1, \<lparr>varstore = [], trace = [Log INFO, ExecCmd, Log ERROR, Log DEBUG], run_count = 0, calls = 1, depth = 0\<rparr>)"
  using exec_exit_on_error_immediate
          [of "check_command\<lparr>exit_on_error := True, error_if_pat := Some ''FAIL'', save := Some ''out.txt''\<rparr>"
              "scripted (\<lambda>k. Inr (''all FAIL here'', 2))" idle]
  by (simp add: check_command_def scripted_def idle_def attempt_def log_command_def emit_def)

lemma attempt_returned:
  "exec_cmd e (calls s) c = Inr (out, rc) \<Longrightarrow> attempt e c s = \<lparr>stdout = PStr out, returncode = rc\<rparr>"
  by (simp add: attempt_def log_command_def emit_def)

lemma attempt_raised:
  "exec_cmd e (calls s) c = Inl msg \<Longrightarrow>
     attempt e c s = \<lparr>stdout = PExc (ExecException msg), returncode = 1\<rparr>"
  by (simp add: attempt_def log_command_def emit_def)

lemma error_if_found:
  "found e (error_if_pat c) out \<Longrightarrow> stdout r = PStr out \<Longrightarrow>
     error_if e c r s = (Exited 1, emit [Eval ErrorIf, Log ERROR] s)"
  by (auto simp: found_def error_if_def re_search_def emit_def split: option.splits)

lemma trace_published:
  "\<exists>es. trace (published e c r s) = trace s @ es \<and> Eval LoopIf \<notin> set es \<and> Eval LoopIfNot \<notin> set es
        \<and> (\<forall>n. Sleep n \<notin> set es) \<and> ExecCmd \<notin> set es"
  by (simp add: published_def save_output_def set_variable_def emit_def split: option.splits pyval.splits)

lemma calls_published [simp]: "calls (published e c r s) = calls s"
  by (simp add: published_def save_output_def set_variable_def emit_def split: option.splits pyval.splits)

text \<open>
  C2. When the attempt returns text in which both the \<^verbatim>\<open>error_if\<close> pattern and the \<^verbatim>\<open>loop_if\<close>
  pattern are found, \<^verbatim>\<open>exec\<close> ends the process with exit status 1 after one invocation of the
  primitive, and neither \<^verbatim>\<open>loop_if\<close> nor \<^verbatim>\<open>loop_if_not\<close> has been called. Unless the earlier
  exit-on-error step already ended the process, the last effects are the call of \<^verbatim>\<open>error_if\<close>
  and its error log.
\<close>

theorem error_if_preempts_loop:
  assumes "exec_cmd e (calls s) c = Inr (out, rc)"
      and "found e (error_if_pat c) out"
      and "found e (loop_if_pat c) out"
  shows "fst (exec e c s) = Exited 1
       \<and> calls (snd (exec e c s)) = calls s + 1
       \<and> Eval LoopIf \<notin> set (events_since s (snd (exec e c s)))
       \<and> Eval LoopIfNot \<notin> set (events_since s (snd (exec e c s)))
       \<and> (if rc \<noteq> 0 \<and> exit_on_error c
          then events_since s (snd (exec e c s)) = [Log INFO, ExecCmd, Log ERROR, Log DEBUG]
          else snd (exec e c s) =
                 emit [Eval ErrorIf, Log ERROR]
                   (published e c \<lparr>stdout = PStr out, returncode = rc\<rparr> (attempted c s)))"
proof (cases "rc \<noteq> 0 \<and> exit_on_error c")
  case True
  then show ?thesis
    using assms(1) by (simp add: exec_steps attempt_returned attempted_eq emit_def events_since_def)
next
  case False
  let ?r = "\<lparr>stdout = PStr out, returncode = rc\<rparr>"
  have ex: "exec e c s = (Exited 1, emit [Eval ErrorIf, Log ERROR] (published e c ?r (attempted c s)))"
    using False assms(1,2) by (auto simp add: exec_steps attempt_returned error_if_found)
  obtain es where es: "trace (published e c ?r (attempted c s)) = trace (attempted c s) @ es"
     "Eval LoopIf \<notin> set es" "Eval LoopIfNot \<notin> set es"
    using trace_published by blast
  have "trace (attempted c s) = trace s @ [Log INFO, ExecCmd]"
    by (simp add: attempted_eq)
  then have "trace (snd (exec e c s)) = trace s @ [Log INFO, ExecCmd] @ es @ [Eval ErrorIf, Log ERROR]"
    using es(1) by (simp add: ex emit_def)
  then have ev: "events_since s (snd (exec e c s)) = [Log INFO, ExecCmd] @ es @ [Eval ErrorIf, Log ERROR]"
    by (simp add: events_since_def)
  have "calls (snd (exec e c s)) = calls s + 1"
    by (simp add: ex emit_def attempted_eq)
  then show ?thesis
    using False es(2,3) ev ex by auto
qed

theorem error_if_preempts_loop_witness:
  "exec_cmd (scripted (\<lambda>k. Inr (''all FAIL here'', 0))) (calls idle)
       (check_command\<lparr>error_if_pat := Some ''FAIL'', loop_if_pat := Some ''here''\<rparr>) = Inr (''all FAIL here'', 0)
   \<and> found (scripted (\<lambda>k. Inr (''all FAIL here'', 0))) (error_if_pat (check_command\<lparr>error_if_pat := Some ''FAIL'', loop_if_pat := Some ''here''\<rparr>)) ''all FAIL here''
   \<and> found (scripted (\<lambda>k. Inr (''all FAIL here'', 0))) (loop_if_pat (check_command\<lparr>error_if_pat := Some ''FAIL'', loop_if_pat := Some ''here''\<rparr>)) ''all FAIL here''
   \<and> fst (exec (scripted (\<lambda>k. Inr (''all FAIL here'', 0)))
             (check_command\<lparr>error_if_pat := Some ''FAIL'', loop_if_pat := Some ''here''\<rparr>) idle) = Exited 1
   \<and> Eval LoopIf \<notin> set (events_since idle (snd (exec (scripted (\<lambda>k. Inr (''all FAIL here'', 0)))
             (check_command\<lparr>error_if_pat := Some ''FAIL'', loop_if_pat := Some ''here''\<rparr>) idle)))
   \<and> trace (snd (exec (scripted (\<lambda>k. Inr (''all FAIL here'', 0)))
             (check_command\<lparr>error_if_pat := Some ''FAIL'', loop_if_pat := Some ''here''\<rparr>) idle))
       = [Log INFO, ExecCmd, SetVariable ''RESULT_STDOUT'' (PStr ''all FAIL here''),
          SetVariable ''RESULT_RETURNCODE'' (PStr ''0''), Output, Eval ErrorIf, Log ERROR]"
  using error_if_preempts_loop
          [of "scripted (\<lambda>k. Inr (''all FAIL here'', 0))" idle
              "check_command\<lparr>error_if_pat := Some ''FAIL'', loop_if_pat := Some ''here''\<rparr>"
              "''all FAIL here''" 0]
  by (simp add: check_command_def scripted_def idle_def found_def published_def attempted_eq
        save_output_def set_variable_def emit_def str_int_def events_since_def)

subsection \<open>The predicate methods, branch by branch\<close>

lemma error_if_passes:
  "error_if_pat c = None \<or> missing e (error_if_pat c) out \<Longrightarrow> stdout r = PStr out \<Longrightarrow>
     error_if e c r s = (Returned, emit [Eval ErrorIf] s)"
  by (auto simp: missing_def error_if_def re_search_def split: option.splits)

lemma error_if_not_passes:
  "error_if_not_pat c = None \<or> found e (error_if_not_pat c) out \<Longrightarrow> stdout r = PStr out \<Longrightarrow>
     error_if_not e c r s = (Returned, emit [Eval ErrorIfNot] s)"
  by (auto simp: found_def error_if_not_def re_search_def split: option.splits)

lemma loop_if_quiet:
  "loop_if_pat c = None \<or> missing e (loop_if_pat c) out \<Longrightarrow> stdout r = PStr out \<Longrightarrow>
     loop_if e c r s =
       (Returned, emit (if loop_if_pat c = None then [Eval LoopIf] else [Eval LoopIf, Log DEBUG]) s)"
  by (auto simp: missing_def loop_if.simps re_search_def emit_def split: option.splits)

lemma loop_if_retry:
  "found e (loop_if_pat c) out \<Longrightarrow> stdout r = PStr out \<Longrightarrow>
   variable_to_int ''loop_count'' (loop_count c) = Inr n \<Longrightarrow> run_count s < n \<Longrightarrow>
   cmdcfg e = Some cfg \<Longrightarrow> depth s < recursion_limit e \<Longrightarrow>
   s' = s\<lparr>run_count := run_count s + 1,
          trace := trace s @ [Eval LoopIf, Log WARN, Sleep (loop_sleep cfg)],
          depth := depth s + 1\<rparr> \<Longrightarrow>
     loop_if e c r s = (fst (exec e c s'), (snd (exec e c s'))\<lparr>depth := depth s\<rparr>)"
  by (auto simp: found_def loop_if.simps re_search_def emit_def split_beta Let_def split: option.splits)

lemma loop_if_overflow:
  "found e (loop_if_pat c) out \<Longrightarrow> stdout r = PStr out \<Longrightarrow>
   variable_to_int ''loop_count'' (loop_count c) = Inr n \<Longrightarrow> run_count s < n \<Longrightarrow>
   cmdcfg e = Some cfg \<Longrightarrow> \<not> depth s < recursion_limit e \<Longrightarrow>
     loop_if e c r s =
       (Raised RecursionError,
        s\<lparr>run_count := run_count s + 1,
          trace := trace s @ [Eval LoopIf, Log WARN, Sleep (loop_sleep cfg)]\<rparr>)"
  by (auto simp: found_def loop_if.simps re_search_def emit_def split: option.splits)

lemma loop_if_no_cmdconfig:
  "found e (loop_if_pat c) out \<Longrightarrow> stdout r = PStr out \<Longrightarrow>
   variable_to_int ''loop_count'' (loop_count c) = Inr n \<Longrightarrow> run_count s < n \<Longrightarrow>
   cmdcfg e = None \<Longrightarrow>
     loop_if e c r s =
       (Raised AttributeError,
        s\<lparr>run_count := run_count s + 1, trace := trace s @ [Eval LoopIf, Log WARN]\<rparr>)"
  by (auto simp: found_def loop_if.simps re_search_def emit_def split: option.splits)

lemma loop_if_exhausted:
  "found e (loop_if_pat c) out \<Longrightarrow> stdout r = PStr out \<Longrightarrow>
   variable_to_int ''loop_count'' (loop_count c) = Inr n \<Longrightarrow> \<not> run_count s < n \<Longrightarrow>
     loop_if e c r s = (Exited 1, s\<lparr>trace := trace s @ [Eval LoopIf, Log WARN, Log ERROR]\<rparr>)"
  by (auto simp: found_def loop_if.simps re_search_def emit_def split: option.splits)

lemma loop_if_bad_count:
  "found e (loop_if_pat c) out \<Longrightarrow> stdout r = PStr out \<Longrightarrow>
   variable_to_int ''loop_count'' (loop_count c) = Inl x \<Longrightarrow>
     loop_if e c r s = (Raised x, s\<lparr>trace := trace s @ [Eval LoopIf, Log WARN]\<rparr>)"
  by (auto simp: found_def loop_if.simps re_search_def emit_def split: option.splits)

lemma loop_if_not_retry:
  "missing e (loop_if_not_pat c) out \<Longrightarrow> stdout r = PStr out \<Longrightarrow>
   variable_to_int ''loop_count'' (loop_count c) = Inr n \<Longrightarrow> run_count s < n \<Longrightarrow>
   cmdcfg e = Some cfg \<Longrightarrow> depth s < recursion_limit e \<Longrightarrow>
   s' = s\<lparr>run_count := run_count s + 1,
          trace := trace s @ [Eval LoopIfNot, Log WARN, Sleep (loop_sleep cfg)],
          depth := depth s + 1\<rparr> \<Longrightarrow>
     loop_if_not e c r s = (fst (exec e c s'), (snd (exec e c s'))\<lparr>depth := depth s\<rparr>)"
  by (auto simp: missing_def loop_if_not.simps re_search_def emit_def split_beta Let_def split: option.splits)

lemma loop_if_not_overflow:
  "missing e (loop_if_not_pat c) out \<Longrightarrow> stdout r = PStr out \<Longrightarrow>
   variable_to_int ''loop_count'' (loop_count c) = Inr n \<Longrightarrow> run_count s < n \<Longrightarrow>
   cmdcfg e = Some cfg \<Longrightarrow> \<not> depth s < recursion_limit e \<Longrightarrow>
     loop_if_not e c r s =
       (Raised RecursionError,
        s\<lparr>run_count := run_count s + 1,
          trace := trace s @ [Eval LoopIfNot, Log WARN, Sleep (loop_sleep cfg)]\<rparr>)"
  by (auto simp: missing_def loop_if_not.simps re_search_def emit_def split: option.splits)

lemma loop_if_not_no_cmdconfig:
  "missing e (loop_if_not_pat c) out \<Longrightarrow> stdout r = PStr out \<Longrightarrow>
   variable_to_int ''loop_count'' (loop_count c) = Inr n \<Longrightarrow> run_count s < n \<Longrightarrow>
   cmdcfg e = None \<Longrightarrow>
     loop_if_not e c r s =
       (Raised AttributeError,
        s\<lparr>run_count := run_count s + 1, trace := trace s @ [Eval LoopIfNot, Log WARN]\<rparr>)"
  by (auto simp: missing_def loop_if_not.simps re_search_def emit_def split: option.splits)

lemma loop_if_not_exhausted:
  "missing e (loop_if_not_pat c) out \<Longrightarrow> stdout r = PStr out \<Longrightarrow>
   variable_to_int ''loop_count'' (loop_count c) = Inr n \<Longrightarrow> \<not> run_count s < n \<Longrightarrow>
     loop_if_not e c r s = (Exited 1, s\<lparr>trace := trace s @ [Eval LoopIfNot, Log WARN, Log ERROR]\<rparr>)"
  by (auto simp: missing_def loop_if_not.simps re_search_def emit_def split: option.splits)

lemma loop_if_not_bad_count:
  "missing e (loop_if_not_pat c) out \<Longrightarrow> stdout r = PStr out \<Longrightarrow>
   variable_to_int ''loop_count'' (loop_count c) = Inl x \<Longrightarrow>
     loop_if_not e c r s = (Raised x, s\<lparr>trace := trace s @ [Eval LoopIfNot, Log WARN]\<rparr>)"
  by (auto simp: missing_def loop_if_not.simps re_search_def emit_def split: option.splits)

lemma exec_reaches_loop:
  assumes "exec_cmd e (calls s) c = Inr (out, rc)" "rc = 0 \<or> \<not> exit_on_error c"
    "passes_errors e c out"
  shows "exec e c s =
           (case loop_if e c \<lparr>stdout = PStr out, returncode = rc\<rparr>
                   (at_loop e c \<lparr>stdout = PStr out, returncode = rc\<rparr> s) of
              (Returned, s9) \<Rightarrow> loop_if_not e c \<lparr>stdout = PStr out, returncode = rc\<rparr> s9
            | (Exited n, s9) \<Rightarrow> (Exited n, s9)
            | (Raised x, s9) \<Rightarrow> (Raised x, s9))"
proof -
  let ?r = "\<lparr>stdout = PStr out, returncode = rc\<rparr>"
  have a: "attempt e c s = ?r" using assms(1) by (rule attempt_returned)
  have e1: "error_if e c ?r (published e c ?r (attempted c s))
              = (Returned, emit [Eval ErrorIf] (published e c ?r (attempted c s)))"
    using assms(3) by (intro error_if_passes[where out = out]) (simp_all add: passes_errors_def)
  have e2: "error_if_not e c ?r (emit [Eval ErrorIf] (published e c ?r (attempted c s)))
              = (Returned, at_loop e c ?r s)"
    using assms(3) error_if_not_passes[where out = out and r = ?r and e = e and c = c]
    by (simp add: passes_errors_def at_loop_def emit_def)
  note ex = exec_steps[of e c s, unfolded a]
  show ?thesis
    using assms(2) by (auto simp add: ex e1 e2)
qed

lemma depth_save_output [simp]: "depth (save_output e c r s) = depth s"
  by (simp add: save_output_def emit_def split: option.splits pyval.splits)

lemma at_loop_fields [simp]:
  "run_count (at_loop e c r s) = run_count s"
  "calls (at_loop e c r s) = calls s + 1"
  by (simp_all add: at_loop_def emit_def attempted_eq)

lemma depth_at_loop [simp]: "depth (at_loop e c r s) = depth s"
  by (simp add: at_loop_def emit_def attempted_eq published_def set_variable_def)

lemma trace_at_loop:
  "\<exists>es. trace (at_loop e c r s) = trace s @ es \<and> Eval LoopIf \<notin> set es \<and> Eval LoopIfNot \<notin> set es
        \<and> (\<forall>n. Sleep n \<notin> set es)"
proof -
  obtain es where "trace (published e c r (attempted c s)) = trace (attempted c s) @ es"
    "Eval LoopIf \<notin> set es" "Eval LoopIfNot \<notin> set es" "\<forall>n. Sleep n \<notin> set es"
    using trace_published by blast
  then show ?thesis
    by (intro exI[where x = "[Log INFO, ExecCmd] @ es @ [Eval ErrorIf, Eval ErrorIfNot]"])
       (simp add: at_loop_def emit_def attempted_eq)
qed


lemma loop_if_firesD:
  assumes "loop_if_fires e c k"
  obtains out rc where "exec_cmd e k c = Inr (out, rc)" "rc = 0 \<or> \<not> exit_on_error c"
    "passes_errors e c out" "found e (loop_if_pat c) out"
proof (cases "exec_cmd e k c")
  case (Inl msg)
  then show ?thesis using assms by (simp add: loop_if_fires_def)
next
  case (Inr p)
  then show ?thesis using assms that by (cases p) (simp add: loop_if_fires_def)
qed


text \<open>
  The same run on a stack that is too small for the retries asked for: it ends in
  \<^verbatim>\<open>RecursionError\<close> at the retry that no longer fits.
\<close>

lemma exec_loop_if_overflows:
  assumes lc: "variable_to_int ''loop_count'' (loop_count c) = Inr n"
      and cfg: "cmdcfg e = Some cfg"
      and fires: "\<forall>k. loop_if_fires e c k"
  shows "depth s \<le> recursion_limit e \<Longrightarrow> recursion_limit e < depth s + (n - run_count s) \<Longrightarrow>
         fst (exec e c s) = Raised RecursionError
       \<and> calls (snd (exec e c s)) = calls s + (recursion_limit e - depth s) + 1"
proof (induction "recursion_limit e - depth s" arbitrary: s)
  case 0
  from fires have "loop_if_fires e c (calls s)" by simp
  then obtain out rc where r: "exec_cmd e (calls s) c = Inr (out, rc)"
      "rc = 0 \<or> \<not> exit_on_error c" "passes_errors e c out" "found e (loop_if_pat c) out"
    by (rule loop_if_firesD)
  let ?r = "\<lparr>stdout = PStr out, returncode = rc\<rparr>"
  have lt: "run_count (at_loop e c ?r s) < n" using 0(2,3) by simp
  have dp: "\<not> depth (at_loop e c ?r s) < recursion_limit e" using 0(1) by simp
  have "loop_if e c ?r (at_loop e c ?r s)
      = (Raised RecursionError,
         (at_loop e c ?r s)\<lparr>run_count := run_count (at_loop e c ?r s) + 1,
            trace := trace (at_loop e c ?r s) @ [Eval LoopIf, Log WARN, Sleep (loop_sleep cfg)]\<rparr>)"
    using r(4) lc lt cfg dp by (intro loop_if_overflow[where out = out and n = n]) simp_all
  then have ex: "exec e c s
      = (Raised RecursionError,
         (at_loop e c ?r s)\<lparr>run_count := run_count (at_loop e c ?r s) + 1,
            trace := trace (at_loop e c ?r s) @ [Eval LoopIf, Log WARN, Sleep (loop_sleep cfg)]\<rparr>)"
    using r(1,2,3) by (simp add: exec_reaches_loop)
  show ?case using 0(1) by (simp add: ex)
next
  case (Suc d)
  from fires have "loop_if_fires e c (calls s)" by simp
  then obtain out rc where r: "exec_cmd e (calls s) c = Inr (out, rc)"
      "rc = 0 \<or> \<not> exit_on_error c" "passes_errors e c out" "found e (loop_if_pat c) out"
    by (rule loop_if_firesD)
  let ?r = "\<lparr>stdout = PStr out, returncode = rc\<rparr>"
  define s' where "s' = (at_loop e c ?r s)\<lparr>run_count := run_count (at_loop e c ?r s) + 1,
       trace := trace (at_loop e c ?r s) @ [Eval LoopIf, Log WARN, Sleep (loop_sleep cfg)],
       depth := depth (at_loop e c ?r s) + 1\<rparr>"
  have lt: "run_count (at_loop e c ?r s) < n" using Suc(2,4) by simp
  have dp: "depth (at_loop e c ?r s) < recursion_limit e" using Suc(2) by simp
  have li: "loop_if e c ?r (at_loop e c ?r s)
              = (fst (exec e c s'), (snd (exec e c s'))\<lparr>depth := depth (at_loop e c ?r s)\<rparr>)"
    using r(4) lc lt cfg dp s'_def by (intro loop_if_retry[where out = out]) simp_all
  have rc': "run_count s' = run_count s + 1" "calls s' = calls s + 1" "depth s' = depth s + 1"
    by (simp_all add: s'_def)
  have d: "d = recursion_limit e - depth s'" using Suc(2) by (simp add: rc'(3))
  have le: "depth s' \<le> recursion_limit e" using Suc(2) by (simp add: rc'(3))
  have over: "recursion_limit e < depth s' + (n - run_count s')"
    using Suc(2,4) lt by (simp add: rc')
  note ih = Suc(1)[OF d le over]
  have "exec e c s =
          (case (fst (exec e c s'), (snd (exec e c s'))\<lparr>depth := depth (at_loop e c ?r s)\<rparr>) of
              (Returned, s9) \<Rightarrow> loop_if_not e c ?r s9
            | (Exited n, s9) \<Rightarrow> (Exited n, s9)
            | (Raised x, s9) \<Rightarrow> (Raised x, s9))"
    using r(1,2,3) by (simp add: exec_reaches_loop li)
  then have ex: "exec e c s
      = (Raised RecursionError, (snd (exec e c s'))\<lparr>depth := depth (at_loop e c ?r s)\<rparr>)"
    using ih by simp
  have k: "recursion_limit e - depth s' = d" "recursion_limit e - depth s = Suc d"
    using Suc(2) d by simp_all
  show ?case
    using ih by (simp add: ex rc'(2) k)
qed

lemma run_unfold:
  "replace_variables e (varstore s) h a = Inr (h', t) \<Longrightarrow>
     run e h a s =
       (fst (exec e (commands h' ! t) (s\<lparr>run_count := 1, trace := trace s @ [Log DEBUG]\<rparr>)), h',
        snd (exec e (commands h' ! t) (s\<lparr>run_count := 1, trace := trace s @ [Log DEBUG]\<rparr>)))"
  by (simp add: run_def emit_def Let_def split: prod.splits)








text \<open>
  Outside these conditions the run ends otherwise. When \<^verbatim>\<open>loop_count\<close> asks for more
  retries than fit on the stack, it ends in \<^verbatim>\<open>RecursionError\<close> after as many invocations as
  did fit: with the command of the scenario and a \<^verbatim>\<open>loop_count\<close> of 1000, after 494. When the
  executor was constructed without a \<^verbatim>\<open>cmdconfig\<close>, the first retry fails on
  \<^verbatim>\<open>self.cmdconfig.loop_sleep\<close> with \<^verbatim>\<open>AttributeError\<close>, after one invocation.
\<close>

lemma run_loop_if_recursion_error:
  assumes "replace_variables e (varstore s) h a = Inr (h', t)"
      and "variable_to_int ''loop_count'' (loop_count (commands h' ! t)) = Inr n"
      and "cmdcfg e = Some cfg"
      and "\<forall>k. loop_if_fires e (commands h' ! t) k"
      and "depth s \<le> recursion_limit e"
      and "recursion_limit e < depth s + (n - 1)"
  shows "fst (run e h a s) = Raised RecursionError
       \<and> calls (snd (snd (run e h a s))) = calls s + (recursion_limit e - depth s) + 1"
proof -
  let ?s1 = "s\<lparr>run_count := 1, trace := trace s @ [Log DEBUG]\<rparr>"
  have le: "depth ?s1 \<le> recursion_limit e" using assms(5) by simp
  have over: "recursion_limit e < depth ?s1 + (n - run_count ?s1)" using assms(6) by simp
  show ?thesis
    using exec_loop_if_overflows[OF assms(2,3,4) le over]
    by (simp add: run_unfold[OF assms(1)])
qed

lemma run_loop_if_thousand_retries:
  "fst (run pending_env (store_of (retry_command\<lparr>loop_count := ''1000''\<rparr>)) 0 idle)
     = Raised RecursionError
   \<and> calls (snd (snd (run pending_env (store_of (retry_command\<lparr>loop_count := ''1000''\<rparr>)) 0 idle)))
     = 494"
proof -
  let ?c = "retry_command\<lparr>loop_count := ''1000''\<rparr>"
  have h1: "replace_variables pending_env (varstore idle) (store_of ?c) 0
     = Inr (\<lparr>commands = [?c, ?c], containers = []\<rparr>, 1)"
    by (simp add: idle_def replace_variables_def deepcopy_def store_of_def retry_command_def
          check_command_def pending_env_def scripted_def getattr_def setattr_str_def opt_str_def
          Let_def)
  have h2: "variable_to_int ''loop_count''
              (loop_count (commands \<lparr>commands = [?c, ?c], containers = []\<rparr> ! 1)) = Inr 1000"
    by (simp add: variable_to_int_def isnumeric_def numeric_char_def decimal_char_def
          digits_value_def)
  have h3: "cmdcfg pending_env = Some \<lparr>loop_sleep = 5\<rparr>"
    by (simp add: pending_env_def scripted_def)
  have h4: "\<forall>k. loop_if_fires pending_env (commands \<lparr>commands = [?c, ?c], containers = []\<rparr> ! 1) k"
    by (simp add: loop_if_fires_def pending_env_def scripted_def retry_command_def
          check_command_def passes_errors_def found_def)
  have h5: "depth idle \<le> recursion_limit pending_env"
    by (simp add: idle_def)
  have h6: "recursion_limit pending_env < depth idle + (1000 - 1)"
    by (simp add: idle_def pending_env_def scripted_def)
  show ?thesis
    using run_loop_if_recursion_error[OF h1 h2 h3 h4 h5 h6]
    by (simp add: idle_def pending_env_def scripted_def)
qed

lemma run_loop_if_without_cmdconfig:
  assumes "replace_variables e (varstore s) h a = Inr (h', t)"
      and "variable_to_int ''loop_count'' (loop_count (commands h' ! t)) = Inr n"
      and "2 \<le> n"
      and "cmdcfg e = None"
      and "loop_if_fires e (commands h' ! t) (calls s)"
  shows "fst (run e h a s) = Raised AttributeError
       \<and> calls (snd (snd (run e h a s))) = calls s + 1"
proof -
  let ?c = "commands h' ! t"
  let ?s1 = "s\<lparr>run_count := 1, trace := trace s @ [Log DEBUG]\<rparr>"
  from assms(5) have "loop_if_fires e ?c (calls ?s1)" by simp
  then obtain out rc where r: "exec_cmd e (calls ?s1) ?c = Inr (out, rc)"
      "rc = 0 \<or> \<not> exit_on_error ?c" "passes_errors e ?c out" "found e (loop_if_pat ?c) out"
    by (rule loop_if_firesD)
  let ?r = "\<lparr>stdout = PStr out, returncode = rc\<rparr>"
  have lt: "run_count (at_loop e ?c ?r ?s1) < n" using assms(3) by simp
  have "loop_if e ?c ?r (at_loop e ?c ?r ?s1)
      = (Raised AttributeError,
         (at_loop e ?c ?r ?s1)\<lparr>run_count := run_count (at_loop e ?c ?r ?s1) + 1,
            trace := trace (at_loop e ?c ?r ?s1) @ [Eval LoopIf, Log WARN]\<rparr>)"
    using r(4) assms(2) lt assms(4) by (intro loop_if_no_cmdconfig[where out = out and n = n]) simp_all
  then have "exec e ?c ?s1
      = (Raised AttributeError,
         (at_loop e ?c ?r ?s1)\<lparr>run_count := run_count (at_loop e ?c ?r ?s1) + 1,
            trace := trace (at_loop e ?c ?r ?s1) @ [Eval LoopIf, Log WARN]\<rparr>)"
    using r(1,2,3) by (simp add: exec_reaches_loop)
  then show ?thesis
    by (simp add: run_unfold[OF assms(1)])
qed

lemma loop_if_not_firesD:
  assumes "loop_if_not_fires e c k"
  obtains out rc where "exec_cmd e k c = Inr (out, rc)" "rc = 0 \<or> \<not> exit_on_error c"
    "passes_errors e c out" "loop_if_pat c = None \<or> missing e (loop_if_pat c) out"
    "missing e (loop_if_not_pat c) out"
proof (cases "exec_cmd e k c")
  case (Inl msg)
  then show ?thesis using assms by (simp add: loop_if_not_fires_def)
next
  case (Inr p)
  then show ?thesis using assms that by (cases p) (simp add: loop_if_not_fires_def)
qed

text \<open>
  The first retry decision of a pass on which a loop predicate fires: with the counter at or
  beyond the limit the process ends, with a \<^verbatim>\<open>loop_count\<close> that cannot be read the exception
  of \<^verbatim>\<open>variable_to_int\<close> leaves \<^verbatim>\<open>exec\<close>; either way after one invocation and without a sleep.
\<close>

lemma exec_retry_decision:
  assumes fires: "loop_if_fires e c (calls s) \<or> loop_if_not_fires e c (calls s)"
      and lc: "(\<exists>x. variable_to_int ''loop_count'' (loop_count c) = Inl x \<and> out = Raised x)
             \<or> (\<exists>n. variable_to_int ''loop_count'' (loop_count c) = Inr n \<and> \<not> run_count s < n
                     \<and> out = Exited 1)"
  shows "fst (exec e c s) = out
       \<and> calls (snd (exec e c s)) = calls s + 1
       \<and> run_count (snd (exec e c s)) = run_count s
       \<and> (\<exists>es. trace (snd (exec e c s)) = trace s @ es \<and> (\<forall>d. Sleep d \<notin> set es))"
proof -
  from fires show ?thesis
  proof
    assume "loop_if_fires e c (calls s)"
    then obtain t rc where r: "exec_cmd e (calls s) c = Inr (t, rc)"
      "rc = 0 \<or> \<not> exit_on_error c" "passes_errors e c t" "found e (loop_if_pat c) t"
      by (rule loop_if_firesD)
    let ?r = "\<lparr>stdout = PStr t, returncode = rc\<rparr>"
    obtain es where es: "trace (at_loop e c ?r s) = trace s @ es" "\<forall>n. Sleep n \<notin> set es"
      using trace_at_loop by blast
    from lc show ?thesis
    proof (elim disjE exE conjE)
      fix x assume x: "variable_to_int ''loop_count'' (loop_count c) = Inl x" "out = Raised x"
      have "loop_if e c ?r (at_loop e c ?r s)
          = (Raised x, (at_loop e c ?r s)\<lparr>trace := trace (at_loop e c ?r s) @ [Eval LoopIf, Log WARN]\<rparr>)"
        using r(4) x(1) by (intro loop_if_bad_count[where out = t]) simp_all
      then have "exec e c s
          = (Raised x, (at_loop e c ?r s)\<lparr>trace := trace (at_loop e c ?r s) @ [Eval LoopIf, Log WARN]\<rparr>)"
        using r(1,2,3) by (simp add: exec_reaches_loop)
      then show ?thesis using es x(2) by simp
    next
      fix n assume n: "variable_to_int ''loop_count'' (loop_count c) = Inr n" "\<not> run_count s < n"
        "out = Exited 1"
      have "loop_if e c ?r (at_loop e c ?r s)
          = (Exited 1, (at_loop e c ?r s)\<lparr>trace := trace (at_loop e c ?r s) @ [Eval LoopIf, Log WARN, Log ERROR]\<rparr>)"
        using r(4) n(1,2) by (intro loop_if_exhausted[where out = t]) simp_all
      then have "exec e c s
          = (Exited 1, (at_loop e c ?r s)\<lparr>trace := trace (at_loop e c ?r s) @ [Eval LoopIf, Log WARN, Log ERROR]\<rparr>)"
        using r(1,2,3) by (simp add: exec_reaches_loop)
      then show ?thesis using es n(3) by simp
    qed
  next
    assume "loop_if_not_fires e c (calls s)"
    then obtain t rc where r: "exec_cmd e (calls s) c = Inr (t, rc)"
      "rc = 0 \<or> \<not> exit_on_error c" "passes_errors e c t"
      "loop_if_pat c = None \<or> missing e (loop_if_pat c) t" "missing e (loop_if_not_pat c) t"
      by (rule loop_if_not_firesD)
    let ?r = "\<lparr>stdout = PStr t, returncode = rc\<rparr>"
    let ?q = "if loop_if_pat c = None then [Eval LoopIf] else [Eval LoopIf, Log DEBUG]"
    let ?s9 = "emit ?q (at_loop e c ?r s)"
    obtain es where es: "trace (at_loop e c ?r s) = trace s @ es" "\<forall>n. Sleep n \<notin> set es"
      using trace_at_loop by blast
    have q: "loop_if e c ?r (at_loop e c ?r s) = (Returned, ?s9)"
      using r(4) by (intro loop_if_quiet[where out = t]) simp_all
    have ex: "exec e c s = loop_if_not e c ?r ?s9"
      using r(1,2,3) by (simp add: exec_reaches_loop q)
    have s9: "run_count ?s9 = run_count s" "calls ?s9 = calls s + 1"
      "trace ?s9 = trace s @ es @ ?q"
      by (simp_all add: emit_def es(1))
    from lc show ?thesis
    proof (elim disjE exE conjE)
      fix x assume x: "variable_to_int ''loop_count'' (loop_count c) = Inl x" "out = Raised x"
      have "loop_if_not e c ?r ?s9 = (Raised x, ?s9\<lparr>trace := trace ?s9 @ [Eval LoopIfNot, Log WARN]\<rparr>)"
        using r(5) x(1) by (intro loop_if_not_bad_count[where out = t]) simp_all
      then show ?thesis using es(2) x(2) s9 by (simp add: ex)
    next
      fix n assume n: "variable_to_int ''loop_count'' (loop_count c) = Inr n" "\<not> run_count s < n"
        "out = Exited 1"
      have "\<not> run_count ?s9 < n" using n(2) s9(1) by simp
      then have "loop_if_not e c ?r ?s9
          = (Exited 1, ?s9\<lparr>trace := trace ?s9 @ [Eval LoopIfNot, Log WARN, Log ERROR]\<rparr>)"
        using r(5) n(1) by (intro loop_if_not_exhausted[where out = t]) simp_all
      then show ?thesis using es(2) n(3) s9 by (simp add: ex)
    qed
  qed
qed

text \<open>
  C9. The run counter starts at 1 and a retry needs \<^verbatim>\<open>run_count < loop_count\<close>. So when a loop
  predicate fires on the first attempt and \<^verbatim>\<open>loop_count\<close> reads as 0 or as 1, \<^verbatim>\<open>run\<close> invokes the
  primitive exactly once, never sleeps, and ends the process with exit status 1; the counter
  is still 1, which exceeds a \<^verbatim>\<open>loop_count\<close> of 0 and equals a \<^verbatim>\<open>loop_count\<close> of 1.
\<close>

theorem run_loop_count_zero_or_one:
  assumes "replace_variables e (varstore s) h a = Inr (h', t)"
      and "variable_to_int ''loop_count'' (loop_count (commands h' ! t)) = Inr n"
      and "n \<le> 1"
      and "loop_if_fires e (commands h' ! t) (calls s)
           \<or> loop_if_not_fires e (commands h' ! t) (calls s)"
  shows "fst (run e h a s) = Exited 1
       \<and> calls (snd (snd (run e h a s))) = calls s + 1
       \<and> run_count (snd (snd (run e h a s))) = 1
       \<and> (if n = 0 then n < run_count (snd (snd (run e h a s)))
           else n = run_count (snd (snd (run e h a s))))
       \<and> (\<forall>d. Sleep d \<notin> set (events_since s (snd (snd (run e h a s)))))"
proof -
  let ?s1 = "s\<lparr>run_count := 1, trace := trace s @ [Log DEBUG]\<rparr>"
  have f: "loop_if_fires e (commands h' ! t) (calls ?s1)
           \<or> loop_if_not_fires e (commands h' ! t) (calls ?s1)"
    using assms(4) by simp
  have "(\<exists>x. variable_to_int ''loop_count'' (loop_count (commands h' ! t)) = Inl x \<and> Exited 1 = Raised x)
      \<or> (\<exists>m. variable_to_int ''loop_count'' (loop_count (commands h' ! t)) = Inr m
              \<and> \<not> run_count ?s1 < m \<and> Exited 1 = Exited 1)"
    using assms(2,3) by simp
  from exec_retry_decision[OF f this]
  obtain es where ex: "fst (exec e (commands h' ! t) ?s1) = Exited 1"
      "calls (snd (exec e (commands h' ! t) ?s1)) = calls s + 1"
      "run_count (snd (exec e (commands h' ! t) ?s1)) = 1"
      "trace (snd (exec e (commands h' ! t) ?s1)) = trace s @ [Log DEBUG] @ es"
      "\<forall>d. Sleep d \<notin> set es"
    by auto
  show ?thesis
    using ex assms(3) by (simp add: run_unfold[OF assms(1)] events_since_def)
qed

lemma replace_variables_ready_command:
  "replace_variables pending_env [] (store_of ready_command) 0
     = Inr (\<lparr>commands = [ready_command, ready_command], containers = []\<rparr>, 1)"
  by (simp add: replace_variables_def deepcopy_def store_of_def ready_command_def check_command_def
        pending_env_def scripted_def getattr_def setattr_str_def opt_str_def Let_def)

theorem run_loop_count_zero_or_one_witness:
  "replace_variables pending_env (varstore idle) (store_of ready_command) 0
     = Inr (\<lparr>commands = [ready_command, ready_command], containers = []\<rparr>, 1)
   \<and> variable_to_int ''loop_count''
        (loop_count (commands \<lparr>commands = [ready_command, ready_command], containers = []\<rparr> ! 1)) = Inr 0
   \<and> (0::nat) \<le> 1
   \<and> loop_if_not_fires pending_env
        (commands \<lparr>commands = [ready_command, ready_command], containers = []\<rparr> ! 1) (calls idle)
   \<and> fst (run pending_env (store_of ready_command) 0 idle) = Exited 1
   \<and> calls (snd (snd (run pending_env (store_of ready_command) 0 idle))) = 1
   \<and> run_count (snd (snd (run pending_env (store_of ready_command) 0 idle))) = 1
   \<and> (\<forall>d. Sleep d \<notin> set (events_since idle (snd (snd (run pending_env (store_of ready_command) 0 idle)))))"
proof -
  have h1: "replace_variables pending_env (varstore idle) (store_of ready_command) 0
     = Inr (\<lparr>commands = [ready_command, ready_command], containers = []\<rparr>, 1)"
    by (simp add: idle_def replace_variables_ready_command)
  have h2: "variable_to_int ''loop_count''
        (loop_count (commands \<lparr>commands = [ready_command, ready_command], containers = []\<rparr> ! 1)) = Inr 0"
    by (simp add: variable_to_int_def ready_command_def check_command_def isnumeric_def
          numeric_char_def decimal_char_def digits_value_def)
  have h3: "(0::nat) \<le> 1" by simp
  have h4: "loop_if_not_fires pending_env
        (commands \<lparr>commands = [ready_command, ready_command], containers = []\<rparr> ! 1) (calls idle)"
    by (simp add: loop_if_not_fires_def pending_env_def scripted_def ready_command_def
          check_command_def passes_errors_def missing_def)
  have h4': "loop_if_fires pending_env
        (commands \<lparr>commands = [ready_command, ready_command], containers = []\<rparr> ! 1) (calls idle)
      \<or> loop_if_not_fires pending_env
        (commands \<lparr>commands = [ready_command, ready_command], containers = []\<rparr> ! 1) (calls idle)"
    using h4 by simp
  show ?thesis
    using run_loop_count_zero_or_one[OF h1 h2 h3 h4'] h1 h2 h4 by (simp add: idle_def)
qed

subsection \<open>A raised failure stored as the result's output\<close>

lemma exec_raised_then_predicate:
  assumes "exec_cmd e (calls s) c = Inl msg" and "\<not> exit_on_error c"
      and "error_if_pat c = Some p" and "regex e p = Some m"
  shows "exec e c s =
           (Raised TypeError,
            emit [Eval ErrorIf]
              (published e c \<lparr>stdout = PExc (ExecException msg), returncode = 1\<rparr> (attempted c s)))"
proof -
  let ?r = "\<lparr>stdout = PExc (ExecException msg), returncode = 1\<rparr>"
  have a: "attempt e c s = ?r" using assms(1) by (rule attempt_raised)
  have "error_if e c ?r (published e c ?r (attempted c s))
          = (Raised TypeError, emit [Eval ErrorIf] (published e c ?r (attempted c s)))"
    using assms(3,4) by (simp add: error_if_def re_search_def)
  then show ?thesis
    using assms(2) by (simp add: exec_steps[of e c s, unfolded a])
qed

lemma exec_returned_then_error_if:
  assumes "exec_cmd e (calls s) c = Inr (out, rc)" and "rc = 0 \<or> \<not> exit_on_error c"
      and "found e (error_if_pat c) out"
  shows "exec e c s =
           (Exited 1,
            emit [Eval ErrorIf, Log ERROR]
              (published e c \<lparr>stdout = PStr out, returncode = rc\<rparr> (attempted c s)))"
proof -
  let ?r = "\<lparr>stdout = PStr out, returncode = rc\<rparr>"
  have a: "attempt e c s = ?r" using assms(1) by (rule attempt_returned)
  have "error_if e c ?r (published e c ?r (attempted c s))
          = (Exited 1, emit [Eval ErrorIf, Log ERROR] (published e c ?r (attempted c s)))"
    using assms(3) by (intro error_if_found[where out = out]) simp_all
  then show ?thesis
    using assms(2) by (auto simp add: exec_steps[of e c s, unfolded a])
qed

text \<open>
  C4, at a concrete input. The primitive raises \<^verbatim>\<open>ExecException("boom")\<close> for a command with
  \<^verbatim>\<open>exit_on_error\<close> off and \<^verbatim>\<open>error_if: "boom"\<close>. The exception is caught, but the result holds
  the exception object, not its message: it is published as it is, and \<^verbatim>\<open>error_if\<close> raises
  \<^verbatim>\<open>TypeError\<close> out of \<^verbatim>\<open>exec\<close> instead of classifying the result. A primitive that returns the
  text \<open>boom\<close> with status 1 is classified: \<^verbatim>\<open>error_if\<close> matches and ends the process.
\<close>

theorem exec_caught_failure_is_not_classified:
  "exec raising_env (check_command\<lparr>error_if_pat := Some ''boom''\<rparr>) idle
     = (Raised TypeError,
        \<lparr>varstore = [(''RESULT_STDOUT'', PExc (ExecException ''boom'')),
                      (''RESULT_RETURNCODE'', PStr ''1'')],
         trace = [Log INFO, ExecCmd,
                  SetVariable ''RESULT_STDOUT'' (PExc (ExecException ''boom'')),
                  SetVariable ''RESULT_RETURNCODE'' (PStr ''1''), Output, Eval ErrorIf],
         run_count = 0, calls = 1, depth = 0\<rparr>)
   \<and> fst (exec failing_env (check_command\<lparr>error_if_pat := Some ''boom''\<rparr>) idle) = Exited 1"
proof -
  have "exec_cmd raising_env (calls idle) (check_command\<lparr>error_if_pat := Some ''boom''\<rparr>) = Inl ''boom''"
    by (simp add: raising_env_def scripted_def)
  moreover have "\<not> exit_on_error (check_command\<lparr>error_if_pat := Some ''boom''\<rparr>)"
    by (simp add: check_command_def)
  moreover have "error_if_pat (check_command\<lparr>error_if_pat := Some ''boom''\<rparr>) = Some ''boom''"
    by simp
  moreover have "regex raising_env ''boom'' = Some (contains ''boom'')"
    by (simp add: raising_env_def scripted_def)
  ultimately have 1: "exec raising_env (check_command\<lparr>error_if_pat := Some ''boom''\<rparr>) idle
     = (Raised TypeError,
            emit [Eval ErrorIf]
              (published raising_env (check_command\<lparr>error_if_pat := Some ''boom''\<rparr>)
                 \<lparr>stdout = PExc (ExecException ''boom''), returncode = 1\<rparr>
                 (attempted (check_command\<lparr>error_if_pat := Some ''boom''\<rparr>) idle)))"
    by (rule exec_raised_then_predicate)
  have "exec_cmd failing_env (calls idle) (check_command\<lparr>error_if_pat := Some ''boom''\<rparr>) = Inr (''boom'', 1)"
    by (simp add: failing_env_def scripted_def)
  moreover have "(1::int) = 0 \<or> \<not> exit_on_error (check_command\<lparr>error_if_pat := Some ''boom''\<rparr>)"
    by (simp add: check_command_def)
  moreover have "found failing_env (error_if_pat (check_command\<lparr>error_if_pat := Some ''boom''\<rparr>)) ''boom''"
    by (simp add: found_def failing_env_def scripted_def)
  ultimately have 2: "fst (exec failing_env (check_command\<lparr>error_if_pat := Some ''boom''\<rparr>) idle) = Exited 1"
    by (simp add: exec_returned_then_error_if)
  have 3: "exec raising_env (check_command\<lparr>error_if_pat := Some ''boom''\<rparr>) idle
     = (Raised TypeError,
        \<lparr>varstore = [(''RESULT_STDOUT'', PExc (ExecException ''boom'')),
                      (''RESULT_RETURNCODE'', PStr ''1'')],
         trace = [Log INFO, ExecCmd,
                  SetVariable ''RESULT_STDOUT'' (PExc (ExecException ''boom'')),
                  SetVariable ''RESULT_RETURNCODE'' (PStr ''1''), Output, Eval ErrorIf],
         run_count = 0, calls = 1, depth = 0\<rparr>)"
    unfolding 1
    by (simp add: published_def attempted_eq save_output_def set_variable_def emit_def
          str_int_def check_command_def idle_def)
  show ?thesis
    using 2 3 by simp
qed

subsection \<open>A loop count that cannot be read\<close>

lemma variable_to_int_not_numeric:
  "\<not> isnumeric v \<Longrightarrow>
     variable_to_int name v
       = Inl (ExecException (''Variable '' @ name @ '' has not a numeric value: '' @ v))"
  by (simp add: variable_to_int_def)

lemma variable_to_int_decimal:
  "v \<noteq> [] \<Longrightarrow> list_all decimal_char v \<Longrightarrow> variable_to_int name v = Inr (digits_value v)"
  by (simp add: variable_to_int_def isnumeric_def numeric_char_def list_all_iff)

text \<open>
  When a loop predicate fires on the first attempt and \<^verbatim>\<open>variable_to_int\<close> raises, the
  exception leaves \<^verbatim>\<open>run\<close> after one invocation of the primitive and before any sleep.
\<close>

lemma run_bad_loop_count:
  assumes "replace_variables e (varstore s) h a = Inr (h', t)"
      and "variable_to_int ''loop_count'' (loop_count (commands h' ! t)) = Inl x"
      and "loop_if_fires e (commands h' ! t) (calls s)
           \<or> loop_if_not_fires e (commands h' ! t) (calls s)"
  shows "fst (run e h a s) = Raised x
       \<and> calls (snd (snd (run e h a s))) = calls s + 1
       \<and> (\<forall>d. Sleep d \<notin> set (events_since s (snd (snd (run e h a s)))))"
proof -
  let ?s1 = "s\<lparr>run_count := 1, trace := trace s @ [Log DEBUG]\<rparr>"
  have f: "loop_if_fires e (commands h' ! t) (calls ?s1)
           \<or> loop_if_not_fires e (commands h' ! t) (calls ?s1)"
    using assms(3) by simp
  have "(\<exists>y. variable_to_int ''loop_count'' (loop_count (commands h' ! t)) = Inl y \<and> Raised x = Raised y)
      \<or> (\<exists>m. variable_to_int ''loop_count'' (loop_count (commands h' ! t)) = Inr m
              \<and> \<not> run_count ?s1 < m \<and> Raised x = Exited 1)"
    using assms(2) by simp
  from exec_retry_decision[OF f this]
  obtain es where ex: "fst (exec e (commands h' ! t) ?s1) = Raised x"
      "calls (snd (exec e (commands h' ! t) ?s1)) = calls s + 1"
      "trace (snd (exec e (commands h' ! t) ?s1)) = trace s @ [Log DEBUG] @ es"
      "\<forall>d. Sleep d \<notin> set es"
    by auto
  show ?thesis
    using ex by (simp add: run_unfold[OF assms(1)] events_since_def)
qed

text \<open>
  C5, at a concrete input. With \<^verbatim>\<open>loop_count\<close> the one character U+00B2, for which
  \<^verbatim>\<open>isnumeric()\<close> holds and \<^verbatim>\<open>int()\<close> fails, \<^verbatim>\<open>run\<close> ends with the \<^verbatim>\<open>ValueError\<close> of \<^verbatim>\<open>int\<close>, not
  with the \<^verbatim>\<open>ExecException\<close> that \<^verbatim>\<open>variable_to_int\<close> raises for \<open>abc\<close>; no sleep has occurred.
\<close>

theorem run_superscript_loop_count_value_error:
  "isnumeric (loop_count superscript_command)
   \<and> fst (run pending_env (store_of superscript_command) 0 idle) = Raised ValueError
   \<and> (\<forall>d. Sleep d \<notin> set (events_since idle
                (snd (snd (run pending_env (store_of superscript_command) 0 idle)))))
   \<and> variable_to_int ''loop_count'' ''abc''
       = Inl (ExecException ''Variable loop_count has not a numeric value: abc'')"
proof -
  have h1: "replace_variables pending_env (varstore idle) (store_of superscript_command) 0
     = Inr (\<lparr>commands = [superscript_command, superscript_command], containers = []\<rparr>, 1)"
    by (simp add: replace_variables_def deepcopy_def store_of_def superscript_command_def
          retry_command_def check_command_def idle_def
          pending_env_def scripted_def getattr_def setattr_str_def opt_str_def Let_def)
  have n: "isnumeric (loop_count superscript_command)"
    by (simp add: superscript_command_def isnumeric_def numeric_char_def decimal_char_def)
  have h2: "variable_to_int ''loop_count''
      (loop_count (commands \<lparr>commands = [superscript_command, superscript_command], containers = []\<rparr> ! 1))
      = Inl ValueError"
    by (simp add: variable_to_int_def superscript_command_def isnumeric_def numeric_char_def
          decimal_char_def)
  have h3: "loop_if_fires pending_env
      (commands \<lparr>commands = [superscript_command, superscript_command], containers = []\<rparr> ! 1) (calls idle)
    \<or> loop_if_not_fires pending_env
      (commands \<lparr>commands = [superscript_command, superscript_command], containers = []\<rparr> ! 1) (calls idle)"
    by (simp add: loop_if_fires_def pending_env_def scripted_def superscript_command_def
          retry_command_def check_command_def passes_errors_def found_def)
  have abc: "variable_to_int ''loop_count'' ''abc''
       = Inl (ExecException ''Variable loop_count has not a numeric value: abc'')"
    by (simp add: variable_to_int_def isnumeric_def numeric_char_def decimal_char_def)
  show ?thesis
    using run_bad_loop_count[OF h1 h2 h3] n abc by simp
qed

section \<open>Claims about the Session Store\<close>

lemma find_session_None_iff:
  "find_session ss name listing = None \<longleftrightarrow> (\<forall>k u. (k, u) \<in> set listing \<longrightarrow> ss name \<noteq> Some u)"
  by (induction ss name listing rule: find_session.induct) (auto split: option.splits)

subsection \<open>Draining the queue\<close>

lemma drain_queue_Nil: "queues s q = [] \<Longrightarrow> drain_queue q s = s"
  by (subst drain_queue.simps) simp

lemma drain_queue_Cons:
  "queues s q = item # rest \<Longrightarrow>
     drain_queue q s =
       drain_queue q
         (s\<lparr>queues := (queues s)(q := rest),
            sessions := (sessions s)(fst item \<mapsto> snd item),
            trace := trace s @ [Log DEBUG, Log DEBUG, Sleep (get_session_wait_time s)]\<rparr>)"
  by (subst drain_queue.simps) (simp add: Let_def add_session_def emit_def)

lemma drain_queue_eq:
  "drain_queue q s =
     s\<lparr>sessions := merged (queues s q) (sessions s),
       queues := (queues s)(q := []),
       trace := trace s @ concat (map (\<lambda>item. [Log DEBUG, Log DEBUG, Sleep (get_session_wait_time s)])
                                     (queues s q))\<rparr>"
proof (induction "queues s q" arbitrary: s)
  case Nil
  have "(queues s)(q := []) = queues s"
    using Nil by (metis fun_upd_idem)
  then show ?case
    using Nil by (simp add: drain_queue_Nil merged_def)
next
  case (Cons item rest)
  let ?s' = "s\<lparr>queues := (queues s)(q := rest),
            sessions := (sessions s)(fst item \<mapsto> snd item),
            trace := trace s @ [Log DEBUG, Log DEBUG, Sleep (get_session_wait_time s)]\<rparr>"
  have r: "rest = queues ?s' q" by simp
  have q: "queues s q = item # rest" using Cons(2) by simp
  have "drain_queue q s = drain_queue q ?s'"
    using q by (rule drain_queue_Cons)
  also have "\<dots> = ?s'\<lparr>sessions := merged (queues ?s' q) (sessions ?s'),
       queues := (queues ?s')(q := []),
       trace := trace ?s' @ concat (map (\<lambda>item. [Log DEBUG, Log DEBUG, Sleep (get_session_wait_time ?s')])
                                     (queues ?s' q))\<rparr>"
    by (rule Cons(1)[OF r])
  also have "\<dots> = s\<lparr>sessions := merged (queues s q) (sessions s),
       queues := (queues s)(q := []),
       trace := trace s @ concat (map (\<lambda>item. [Log DEBUG, Log DEBUG, Sleep (get_session_wait_time s)])
                                     (queues s q))\<rparr>"
    by (simp add: q merged_def)
  finally show ?case .
qed

lemma merged_last:
  "items \<noteq> [] \<Longrightarrow> merged items ss (fst (last items)) = Some (snd (last items))"
  by (induction items arbitrary: ss rule: rev_induct) (simp_all add: merged_def)

lemma dom_merged: "dom (merged items ss) = dom ss \<union> fst ` set items"
  by (induction items arbitrary: ss) (auto simp: merged_def)


lemma get_session_by_name_unfold:
  "get_session_by_name name msfsessions block s =
     (case find_session (sessions (drained s)) name (msfsessions (reads (drained s))) of
        Some k \<Rightarrow> Some (Inr k, (drained s)\<lparr>reads := reads (drained s) + 1\<rparr>)
      | None \<Rightarrow>
          if \<not> block
          then Some (Inl (ExecException (''Session ('' @ name @ '') not found'')),
                     (drained s)\<lparr>reads := reads (drained s) + 1\<rparr>)
          else get_session_by_name name msfsessions block
                 ((drained s)\<lparr>reads := reads (drained s) + 1,
                               trace := trace (drained s) @ [Sleep 3]\<rparr>))"
  by (subst get_session_by_name.simps)
     (simp add: drained_def Let_def emit_def cong: option.case_cong if_cong)





text \<open>
  C10. A non-blocking call that finds entries pending in the attached queue first drains them:
  each is merged into the directory and followed by a sleep of \<open>get_session_wait_time\<close>. When no
  handle of the listing matches the merged directory's entry for \<open>name\<close>, the call raises the
  "not found" \<^verbatim>\<open>ExecException\<close>, and the store it leaves has the merged directory and the
  emptied queue: the failure undoes nothing.
\<close>

theorem get_session_by_name_merges_before_failing:
  assumes "queue s = Some q" and "queues s q \<noteq> []"
      and "\<forall>k u. (k, u) \<in> set (msfsessions (reads s))
                   \<longrightarrow> merged (queues s q) (sessions s) name \<noteq> Some u"
  shows "get_session_by_name name msfsessions False s
           = Some (Inl (ExecException (''Session ('' @ name @ '') not found'')),
                   s\<lparr>sessions := merged (queues s q) (sessions s),
                     queues := (queues s)(q := []),
                     trace := trace s @ concat (map (\<lambda>item. [Log DEBUG, Log DEBUG,
                                                           Sleep (get_session_wait_time s)])
                                                   (queues s q)),
                     reads := reads s + 1\<rparr>)
       \<and> fst ` set (queues s q) \<subseteq> dom (merged (queues s q) (sessions s))
       \<and> merged (queues s q) (sessions s) (fst (last (queues s q)))
           = Some (snd (last (queues s q)))"
proof -
  have d: "drained s = drain_queue q s" using assms(1) by (simp add: drained_def)
  have f: "find_session (sessions (drain_queue q s)) name (msfsessions (reads (drain_queue q s))) = None"
    using assms(3) by (simp add: find_session_None_iff drain_queue_eq)
  have "get_session_by_name name msfsessions False s
          = Some (Inl (ExecException (''Session ('' @ name @ '') not found'')),
                  (drain_queue q s)\<lparr>reads := reads (drain_queue q s) + 1\<rparr>)"
    by (subst get_session_by_name_unfold) (simp add: d f)
  then show ?thesis
    using assms(2) by (simp add: drain_queue_eq dom_merged merged_last)
qed

theorem get_session_by_name_merges_before_failing_witness:
  "queue pending_store = Some 0
   \<and> queues pending_store 0 = [(''beacon1'', ''uuid-b'')]
   \<and> fst (the (get_session_by_name ''beacon1'' one_session False pending_store))
       = Inl (ExecException ''Session (beacon1) not found'')
   \<and> sessions (snd (the (get_session_by_name ''beacon1'' one_session False pending_store))) ''beacon1''
       = Some ''uuid-b''
   \<and> queues (snd (the (get_session_by_name ''beacon1'' one_session False pending_store))) 0 = []
   \<and> trace (snd (the (get_session_by_name ''beacon1'' one_session False pending_store)))
       = [Log DEBUG, Log DEBUG, Sleep 5]"
proof -
  have h1: "queue pending_store = Some 0" by (simp add: pending_store_def new_store_def)
  have h2: "queues pending_store 0 \<noteq> []" by (simp add: pending_store_def new_store_def)
  have h3: "\<forall>k u. (k, u) \<in> set (one_session (reads pending_store))
                   \<longrightarrow> merged (queues pending_store 0) (sessions pending_store) ''beacon1'' \<noteq> Some u"
    by (simp add: pending_store_def new_store_def one_session_def merged_def)
  show ?thesis
    using get_session_by_name_merges_before_failing
            [where s = pending_store and q = 0 and msfsessions = one_session and name = "''beacon1''",
             OF h1 h2 h3]
    by (simp add: pending_store_def new_store_def merged_def)
qed

subsection \<open>The waiting loops\<close>

lemma session_poll_0:
  "session_poll live uuid r 0 \<longleftrightarrow> session_found live uuid r"
  by (simp add: session_poll_def)

lemma session_poll_Suc:
  "session_poll live uuid r (Suc i)
     \<longleftrightarrow> \<not> session_found live uuid r \<and> session_poll live uuid (next_poll live 0 r) i"
  by (auto simp: session_poll_def funpow_swap1 less_Suc_eq_0_disj)

lemma fresh_poll_0:
  "fresh_poll live known n r 0 \<longleftrightarrow> fresh_found live known n r"
  by (simp add: fresh_poll_def)

lemma fresh_poll_Suc:
  "fresh_poll live known n r (Suc i)
     \<longleftrightarrow> \<not> fresh_found live known n r \<and> fresh_poll live known n (next_poll live n r) i"
  by (auto simp: fresh_poll_def funpow_swap1 less_Suc_eq_0_disj)

lemma wait_for_session_poll_hit:
  "session_found live uuid (reads s) \<Longrightarrow> matched live uuid (reads s) = Some (sid, u) \<Longrightarrow>
     wait_for_session_poll name uuid live qu s
       = Some (add_or_queue_session name uuid qu sid (s\<lparr>reads := reads s + 2\<rparr>))"
  by (subst wait_for_session_poll.simps) (simp add: session_found_def matched_def)

lemma wait_for_session_poll_miss:
  "\<not> session_found live uuid (reads s) \<Longrightarrow>
     wait_for_session_poll name uuid live qu s
       = wait_for_session_poll name uuid live qu (s\<lparr>reads := next_poll live 0 (reads s)\<rparr>)"
  by (subst wait_for_session_poll.simps)
     (auto simp: session_found_def next_poll_def split: option.splits)

lemma wait_for_increased_session_poll_hit:
  "fresh_found live known n (reads s) \<Longrightarrow> fresh live known (reads s) = Some (sid, u) \<Longrightarrow>
     wait_for_increased_session_poll name live qu n known s
       = Some ((emit [Log DEBUG] (add_or_queue_session name u qu sid (s\<lparr>reads := reads s + 2\<rparr>)))
                 \<lparr>reads := reads s + 3\<rparr>)"
  by (subst wait_for_increased_session_poll.simps) (simp add: fresh_found_def fresh_def)

lemma wait_for_increased_session_poll_miss:
  "\<not> fresh_found live known n (reads s) \<Longrightarrow>
     wait_for_increased_session_poll name live qu n known s
       = wait_for_increased_session_poll name live qu n known (s\<lparr>reads := next_poll live n (reads s)\<rparr>)"
  by (subst wait_for_increased_session_poll.simps)
     (auto simp: fresh_found_def next_poll_def split: option.splits)

text \<open>
  The iteration that first finds its match decides the result: the pair handed to
  \<^verbatim>\<open>add_or_queue_session\<close> is the one its scan stopped at.
\<close>

lemma wait_for_session_poll_first:
  "session_poll live uuid (reads s) i \<Longrightarrow>
   matched live uuid ((next_poll live 0 ^^ i) (reads s)) = Some (sid, u) \<Longrightarrow>
     wait_for_session_poll name uuid live qu s
       = Some (add_or_queue_session name uuid qu sid
                 (s\<lparr>reads := (next_poll live 0 ^^ i) (reads s) + 2\<rparr>))"
proof (induction i arbitrary: s)
  case 0
  then show ?case by (simp add: session_poll_0 wait_for_session_poll_hit)
next
  case (Suc i)
  let ?s' = "s\<lparr>reads := next_poll live 0 (reads s)\<rparr>"
  have miss: "\<not> session_found live uuid (reads s)"
    and rest: "session_poll live uuid (reads ?s') i"
    using Suc(2) by (simp_all add: session_poll_Suc)
  have m: "matched live uuid ((next_poll live 0 ^^ i) (reads ?s')) = Some (sid, u)"
    using Suc(3) by (simp add: funpow_swap1)
  show ?case
    using Suc(1)[OF rest m] by (simp add: wait_for_session_poll_miss[OF miss] funpow_swap1)
qed

lemma wait_for_increased_session_poll_first:
  "fresh_poll live known n (reads s) i \<Longrightarrow>
   fresh live known ((next_poll live n ^^ i) (reads s)) = Some (sid, u) \<Longrightarrow>
     wait_for_increased_session_poll name live qu n known s
       = Some ((emit [Log DEBUG]
                  (add_or_queue_session name u qu sid
                     (s\<lparr>reads := (next_poll live n ^^ i) (reads s) + 2\<rparr>)))
                 \<lparr>reads := (next_poll live n ^^ i) (reads s) + 3\<rparr>)"
proof (induction i arbitrary: s)
  case 0
  then show ?case by (simp add: fresh_poll_0 wait_for_increased_session_poll_hit)
next
  case (Suc i)
  let ?s' = "s\<lparr>reads := next_poll live n (reads s)\<rparr>"
  have miss: "\<not> fresh_found live known n (reads s)"
    and rest: "fresh_poll live known n (reads ?s') i"
    using Suc(2) by (simp_all add: fresh_poll_Suc)
  have m: "fresh live known ((next_poll live n ^^ i) (reads ?s')) = Some (sid, u)"
    using Suc(3) by (simp add: funpow_swap1)
  show ?case
    using Suc(1)[OF rest m]
    by (simp add: wait_for_increased_session_poll_miss[OF miss] funpow_swap1)
qed

text \<open>A loop that returns has found its match in one of its iterations.\<close>

lemma wait_for_session_poll_found:
  assumes "wait_for_session_poll name uuid live qu s = Some s'"
  shows "\<exists>i. session_poll live uuid (reads s) i"
proof (rule wait_for_session_poll.raw_induct
        [where P = "\<lambda>name uuid live qu s s'. \<exists>i. session_poll live uuid (reads s) i",
         OF _ assms], goal_cases)
  case (1 rec name uuid live qu s s')
  show ?case
  proof (cases "session_found live uuid (reads s)")
    case True
    then have "session_poll live uuid (reads s) 0" by (simp add: session_poll_0)
    then show ?thesis ..
  next
    case False
    then have "rec name uuid live qu (s\<lparr>reads := next_poll live 0 (reads s)\<rparr>) = Some s'"
      using 1(2) by (auto simp: session_found_def next_poll_def split: option.splits if_splits)
    from 1(1)[OF this] obtain i where "session_poll live uuid (next_poll live 0 (reads s)) i"
      by auto
    then have "session_poll live uuid (reads s) (Suc i)"
      using False by (simp add: session_poll_Suc)
    then show ?thesis ..
  qed
qed

lemma wait_for_increased_session_poll_found:
  assumes "wait_for_increased_session_poll name live qu n known s = Some s'"
  shows "\<exists>i. fresh_poll live known n (reads s) i"
proof (rule wait_for_increased_session_poll.raw_induct
        [where P = "\<lambda>name live qu n known s s'. \<exists>i. fresh_poll live known n (reads s) i",
         OF _ assms], goal_cases)
  case (1 rec name live qu n known s s')
  show ?case
  proof (cases "fresh_found live known n (reads s)")
    case True
    then have "fresh_poll live known n (reads s) 0" by (simp add: fresh_poll_0)
    then show ?thesis ..
  next
    case False
    then have "rec name live qu n known (s\<lparr>reads := next_poll live n (reads s)\<rparr>) = Some s'"
      using 1(2) by (auto simp: fresh_found_def next_poll_def split: option.splits if_splits)
    from 1(1)[OF this] obtain i where "fresh_poll live known n (next_poll live n (reads s)) i"
      by auto
    then have "fresh_poll live known n (reads s) (Suc i)"
      using False by (simp add: fresh_poll_Suc)
    then show ?thesis ..
  qed
qed

lemma session_found_matched:
  assumes "session_found live uuid r"
  shows "\<exists>sid. matched live uuid r = Some (sid, uuid)"
proof -
  from assms obtain p where p: "find (\<lambda>(session_id, u). u = uuid) (live (r + 1)) = Some p"
    by (auto simp: session_found_def)
  then have "p \<in> set (live (r + 1)) \<and> (case p of (session_id, u) \<Rightarrow> u = uuid)"
    unfolding find_Some_iff by (metis nth_mem)
  then have "snd p = uuid" by (cases p) simp
  then show ?thesis using p by (cases p) (simp add: matched_def)
qed

lemma fresh_found_fresh:
  "fresh_found live known n r \<Longrightarrow> \<exists>sid u. fresh live known r = Some (sid, u)"
  by (cases "fresh live known r") (auto simp: fresh_found_def fresh_def)

lemma wait_for_session_result:
  assumes "wait_for_session name uuid live qu s = Some s'"
  obtains i sid where "session_poll live uuid (reads s + 1) i"
    "matched live uuid ((next_poll live 0 ^^ i) (reads s + 1)) = Some (sid, uuid)"
    "s' = add_or_queue_session name uuid qu sid
            (s\<lparr>trace := trace s @ [Log DEBUG], reads := (next_poll live 0 ^^ i) (reads s + 1) + 2\<rparr>)"
proof -
  let ?s0 = "(emit [Log DEBUG] s)\<lparr>reads := reads s + 1\<rparr>"
  have p: "wait_for_session_poll name uuid live qu ?s0 = Some s'"
    using assms by (simp add: wait_for_session_def)
  from wait_for_session_poll_found[OF p]
  obtain i where i: "session_poll live uuid (reads s + 1) i" by auto
  then have "session_found live uuid ((next_poll live 0 ^^ i) (reads s + 1))"
    by (simp add: session_poll_def)
  then obtain sid where m: "matched live uuid ((next_poll live 0 ^^ i) (reads s + 1)) = Some (sid, uuid)"
    using session_found_matched by blast
  have "wait_for_session_poll name uuid live qu ?s0
          = Some (add_or_queue_session name uuid qu sid
                    (?s0\<lparr>reads := (next_poll live 0 ^^ i) (reads ?s0) + 2\<rparr>))"
    using i m by (intro wait_for_session_poll_first) simp_all
  then have "s' = add_or_queue_session name uuid qu sid
            (s\<lparr>trace := trace s @ [Log DEBUG], reads := (next_poll live 0 ^^ i) (reads s + 1) + 2\<rparr>)"
    using p by (simp add: emit_def)
  then show ?thesis using i m that by blast
qed

lemma wait_for_increased_session_result:
  assumes "wait_for_increased_session name uuid live qu s = Some s'"
  obtains i sid u where
    "fresh_poll live (map fst (live (reads s + 1))) (length (live (reads s))) (reads s + 2) i"
    "fresh live (map fst (live (reads s + 1)))
       ((next_poll live (length (live (reads s))) ^^ i) (reads s + 2)) = Some (sid, u)"
    "s' = (emit [Log DEBUG]
             (add_or_queue_session name u qu sid
                (s\<lparr>reads := (next_poll live (length (live (reads s))) ^^ i) (reads s + 2) + 2\<rparr>)))
            \<lparr>reads := (next_poll live (length (live (reads s))) ^^ i) (reads s + 2) + 3\<rparr>"
proof -
  let ?s0 = "s\<lparr>reads := reads s + 2\<rparr>"
  let ?known = "map fst (live (reads s + 1))"
  let ?n = "length (live (reads s))"
  have p: "wait_for_increased_session_poll name live qu ?n ?known ?s0 = Some s'"
    using assms by (simp add: wait_for_increased_session_def)
  from wait_for_increased_session_poll_found[OF p]
  obtain i where i: "fresh_poll live ?known ?n (reads s + 2) i" by auto
  then have "fresh_found live ?known ?n ((next_poll live ?n ^^ i) (reads s + 2))"
    by (simp add: fresh_poll_def)
  then obtain sid u where m: "fresh live ?known ((next_poll live ?n ^^ i) (reads s + 2)) = Some (sid, u)"
    using fresh_found_fresh by blast
  have "wait_for_increased_session_poll name live qu ?n ?known ?s0
          = Some ((emit [Log DEBUG]
                     (add_or_queue_session name u qu sid
                        (?s0\<lparr>reads := (next_poll live ?n ^^ i) (reads ?s0) + 2\<rparr>)))
                    \<lparr>reads := (next_poll live ?n ^^ i) (reads ?s0) + 3\<rparr>)"
    using i m by (intro wait_for_increased_session_poll_first) simp_all
  then have "s' = (emit [Log DEBUG]
             (add_or_queue_session name u qu sid
                (s\<lparr>reads := (next_poll live ?n ^^ i) (reads s + 2) + 2\<rparr>)))
            \<lparr>reads := (next_poll live ?n ^^ i) (reads s + 2) + 3\<rparr>"
    using p by simp
  then show ?thesis using i m that by blast
qed

lemma wait_for_session_poll_returns:
  "session_found live uuid ((next_poll live 0 ^^ i) (reads s)) \<Longrightarrow>
     wait_for_session_poll name uuid live qu s \<noteq> None"
proof (induction i arbitrary: s)
  case 0
  then show ?case
    by (subst wait_for_session_poll.simps) (auto simp: session_found_def)
next
  case (Suc i)
  show ?case
  proof (cases "session_found live uuid (reads s)")
    case True
    then show ?thesis
      by (subst wait_for_session_poll.simps) (auto simp: session_found_def)
  next
    case False
    let ?s' = "s\<lparr>reads := next_poll live 0 (reads s)\<rparr>"
    have "session_found live uuid ((next_poll live 0 ^^ i) (reads ?s'))"
      using Suc(2) by (simp add: funpow_swap1)
    from Suc(1)[OF this] show ?thesis by (simp add: wait_for_session_poll_miss[OF False])
  qed
qed

lemma wait_for_increased_session_poll_returns:
  "fresh_found live known n ((next_poll live n ^^ i) (reads s)) \<Longrightarrow>
     wait_for_increased_session_poll name live qu n known s \<noteq> None"
proof (induction i arbitrary: s)
  case 0
  then show ?case
    by (subst wait_for_increased_session_poll.simps) (auto simp: fresh_found_def)
next
  case (Suc i)
  show ?case
  proof (cases "fresh_found live known n (reads s)")
    case True
    then show ?thesis
      by (subst wait_for_increased_session_poll.simps) (auto simp: fresh_found_def)
  next
    case False
    let ?s' = "s\<lparr>reads := next_poll live n (reads s)\<rparr>"
    have "fresh_found live known n ((next_poll live n ^^ i) (reads ?s'))"
      using Suc(2) by (simp add: funpow_swap1)
    from Suc(1)[OF this] show ?thesis
      by (simp add: wait_for_increased_session_poll_miss[OF False])
  qed
qed

lemma add_or_queue_session_queued:
  "add_or_queue_session name uuid (Some q) sid s
     = s\<lparr>queues := (queues s)(q := queues s q @ [(name, uuid)])\<rparr>"
  by (simp add: add_or_queue_session_def)

lemma add_or_queue_session_direct:
  "add_or_queue_session name uuid None sid s
     = s\<lparr>sessions := (sessions s)(name \<mapsto> uuid),
         varstore := varstore s @ [(''LAST_MSF_SESSION'', PStr sid)],
         trace := trace s @ [Log DEBUG, Log DEBUG, SetVariable ''LAST_MSF_SESSION'' (PStr sid),
                             Log DEBUG, Sleep 30]\<rparr>"
  by (simp add: add_or_queue_session_def add_session_def set_variable_def emit_def)

text \<open>
  C8. A wait that returns has found its match in the live registry: of its iterations one,
  \<open>i\<close>, was the first whose scan stopped at an entry \<open>(sid, u)\<close> of the listing it read. For
  \<^verbatim>\<open>wait_for_session\<close> that is the first entry with the correlation id \<open>uuid\<close> waited for; for
  \<^verbatim>\<open>wait_for_increased_session\<close> it is the first entry whose handle was not in the snapshot
  taken at the start, and \<open>u\<close> is that entry's \<^verbatim>\<open>exploit_uuid\<close>. With a queue the wait has
  pushed the one pair \<open>(name, u)\<close> onto that queue and has left the directory and the Variable
  Store as they were; it has not slept. Without a queue it has registered \<open>name \<mapsto> u\<close> in the
  directory, published the handle \<open>sid\<close> as \<open>LAST_MSF_SESSION\<close>, slept 30 seconds and touched
  no queue. Both waits return as soon as one of their iterations finds its match.
\<close>

theorem wait_for_session_queues_or_registers:
  "(\<forall>s'. wait_for_session name uuid live (Some q) s = Some s' \<longrightarrow>
       sessions s' = sessions s \<and> varstore s' = varstore s
       \<and> queues s' = (queues s)(q := queues s q @ [(name, uuid)])
       \<and> trace s' = trace s @ [Log DEBUG]
       \<and> (\<exists>i sid. session_poll live uuid (reads s + 1) i
            \<and> matched live uuid ((next_poll live 0 ^^ i) (reads s + 1)) = Some (sid, uuid)
            \<and> reads s' = (next_poll live 0 ^^ i) (reads s + 1) + 2))
   \<and> (\<forall>s'. wait_for_increased_session name uuid live (Some q) s = Some s' \<longrightarrow>
       sessions s' = sessions s \<and> varstore s' = varstore s
       \<and> (\<exists>i sid u.
             fresh_poll live (map fst (live (reads s + 1))) (length (live (reads s))) (reads s + 2) i
           \<and> fresh live (map fst (live (reads s + 1)))
                ((next_poll live (length (live (reads s))) ^^ i) (reads s + 2)) = Some (sid, u)
           \<and> queues s' = (queues s)(q := queues s q @ [(name, u)])
           \<and> reads s' = (next_poll live (length (live (reads s))) ^^ i) (reads s + 2) + 3)
       \<and> trace s' = trace s @ [Log DEBUG])
   \<and> (\<forall>s'. wait_for_session name uuid live None s = Some s' \<longrightarrow>
       sessions s' = (sessions s)(name \<mapsto> uuid) \<and> queues s' = queues s
       \<and> (\<exists>i sid. session_poll live uuid (reads s + 1) i
            \<and> matched live uuid ((next_poll live 0 ^^ i) (reads s + 1)) = Some (sid, uuid)
            \<and> reads s' = (next_poll live 0 ^^ i) (reads s + 1) + 2
            \<and> varstore s' = varstore s @ [(''LAST_MSF_SESSION'', PStr sid)]
            \<and> trace s' = trace s @ [Log DEBUG, Log DEBUG, Log DEBUG,
                                     SetVariable ''LAST_MSF_SESSION'' (PStr sid),
                                     Log DEBUG, Sleep 30]))
   \<and> (\<forall>s'. wait_for_increased_session name uuid live None s = Some s' \<longrightarrow>
       queues s' = queues s
       \<and> (\<exists>i sid u.
             fresh_poll live (map fst (live (reads s + 1))) (length (live (reads s))) (reads s + 2) i
           \<and> fresh live (map fst (live (reads s + 1)))
                ((next_poll live (length (live (reads s))) ^^ i) (reads s + 2)) = Some (sid, u)
           \<and> reads s' = (next_poll live (length (live (reads s))) ^^ i) (reads s + 2) + 3
           \<and> sessions s' = (sessions s)(name \<mapsto> u)
           \<and> varstore s' = varstore s @ [(''LAST_MSF_SESSION'', PStr sid)]
           \<and> trace s' = trace s @ [Log DEBUG, Log DEBUG,
                                    SetVariable ''LAST_MSF_SESSION'' (PStr sid),
                                    Log DEBUG, Sleep 30, Log DEBUG]))
   \<and> ((\<exists>i. session_found live uuid ((next_poll live 0 ^^ i) (reads s + 1)))
        \<longrightarrow> wait_for_session name uuid live qu s \<noteq> None)
   \<and> ((\<exists>i. fresh_found live (map fst (live (reads s + 1))) (length (live (reads s)))
               ((next_poll live (length (live (reads s))) ^^ i) (reads s + 2)))
        \<longrightarrow> wait_for_increased_session name uuid live qu s \<noteq> None)"
proof (intro conjI allI impI)
  fix s' assume "wait_for_session name uuid live (Some q) s = Some s'"
  then obtain i sid where r: "session_poll live uuid (reads s + 1) i"
    "matched live uuid ((next_poll live 0 ^^ i) (reads s + 1)) = Some (sid, uuid)"
    "s' = add_or_queue_session name uuid (Some q) sid
            (s\<lparr>trace := trace s @ [Log DEBUG], reads := (next_poll live 0 ^^ i) (reads s + 1) + 2\<rparr>)"
    by (rule wait_for_session_result)
  show "sessions s' = sessions s" "varstore s' = varstore s"
       "queues s' = (queues s)(q := queues s q @ [(name, uuid)])"
       "trace s' = trace s @ [Log DEBUG]"
    by (simp_all add: r(3) add_or_queue_session_queued)
  have "reads s' = (next_poll live 0 ^^ i) (reads s + 1) + 2"
    by (simp add: r(3) add_or_queue_session_queued)
  then show "\<exists>i sid. session_poll live uuid (reads s + 1) i
            \<and> matched live uuid ((next_poll live 0 ^^ i) (reads s + 1)) = Some (sid, uuid)
            \<and> reads s' = (next_poll live 0 ^^ i) (reads s + 1) + 2"
    using r(1,2) by blast
next
  fix s' assume "wait_for_increased_session name uuid live (Some q) s = Some s'"
  then obtain i sid u where r:
    "fresh_poll live (map fst (live (reads s + 1))) (length (live (reads s))) (reads s + 2) i"
    "fresh live (map fst (live (reads s + 1)))
       ((next_poll live (length (live (reads s))) ^^ i) (reads s + 2)) = Some (sid, u)"
    "s' = (emit [Log DEBUG]
             (add_or_queue_session name u (Some q) sid
                (s\<lparr>reads := (next_poll live (length (live (reads s))) ^^ i) (reads s + 2) + 2\<rparr>)))
            \<lparr>reads := (next_poll live (length (live (reads s))) ^^ i) (reads s + 2) + 3\<rparr>"
    by (rule wait_for_increased_session_result)
  show "sessions s' = sessions s" "varstore s' = varstore s" "trace s' = trace s @ [Log DEBUG]"
    by (simp_all add: r(3) add_or_queue_session_queued emit_def)
  have "queues s' = (queues s)(q := queues s q @ [(name, u)])"
       "reads s' = (next_poll live (length (live (reads s))) ^^ i) (reads s + 2) + 3"
    by (simp_all add: r(3) add_or_queue_session_queued emit_def)
  then show "\<exists>i sid u.
             fresh_poll live (map fst (live (reads s + 1))) (length (live (reads s))) (reads s + 2) i
           \<and> fresh live (map fst (live (reads s + 1)))
                ((next_poll live (length (live (reads s))) ^^ i) (reads s + 2)) = Some (sid, u)
           \<and> queues s' = (queues s)(q := queues s q @ [(name, u)])
           \<and> reads s' = (next_poll live (length (live (reads s))) ^^ i) (reads s + 2) + 3"
    using r(1,2) by blast
next
  fix s' assume "wait_for_session name uuid live None s = Some s'"
  then obtain i sid where r: "session_poll live uuid (reads s + 1) i"
    "matched live uuid ((next_poll live 0 ^^ i) (reads s + 1)) = Some (sid, uuid)"
    "s' = add_or_queue_session name uuid None sid
            (s\<lparr>trace := trace s @ [Log DEBUG], reads := (next_poll live 0 ^^ i) (reads s + 1) + 2\<rparr>)"
    by (rule wait_for_session_result)
  show "sessions s' = (sessions s)(name \<mapsto> uuid)" "queues s' = queues s"
    by (simp_all add: r(3) add_or_queue_session_direct)
  have "reads s' = (next_poll live 0 ^^ i) (reads s + 1) + 2"
       "varstore s' = varstore s @ [(''LAST_MSF_SESSION'', PStr sid)]"
       "trace s' = trace s @ [Log DEBUG, Log DEBUG, Log DEBUG,
                              SetVariable ''LAST_MSF_SESSION'' (PStr sid), Log DEBUG, Sleep 30]"
    by (simp_all add: r(3) add_or_queue_session_direct)
  then show "\<exists>i sid. session_poll live uuid (reads s + 1) i
            \<and> matched live uuid ((next_poll live 0 ^^ i) (reads s + 1)) = Some (sid, uuid)
            \<and> reads s' = (next_poll live 0 ^^ i) (reads s + 1) + 2
            \<and> varstore s' = varstore s @ [(''LAST_MSF_SESSION'', PStr sid)]
            \<and> trace s' = trace s @ [Log DEBUG, Log DEBUG, Log DEBUG,
                                     SetVariable ''LAST_MSF_SESSION'' (PStr sid),
                                     Log DEBUG, Sleep 30]"
    using r(1,2) by blast
next
  fix s' assume "wait_for_increased_session name uuid live None s = Some s'"
  then obtain i sid u where r:
    "fresh_poll live (map fst (live (reads s + 1))) (length (live (reads s))) (reads s + 2) i"
    "fresh live (map fst (live (reads s + 1)))
       ((next_poll live (length (live (reads s))) ^^ i) (reads s + 2)) = Some (sid, u)"
    "s' = (emit [Log DEBUG]
             (add_or_queue_session name u None sid
                (s\<lparr>reads := (next_poll live (length (live (reads s))) ^^ i) (reads s + 2) + 2\<rparr>)))
            \<lparr>reads := (next_poll live (length (live (reads s))) ^^ i) (reads s + 2) + 3\<rparr>"
    by (rule wait_for_increased_session_result)
  show "queues s' = queues s"
    by (simp add: r(3) add_or_queue_session_direct emit_def)
  have "reads s' = (next_poll live (length (live (reads s))) ^^ i) (reads s + 2) + 3"
       "sessions s' = (sessions s)(name \<mapsto> u)"
       "varstore s' = varstore s @ [(''LAST_MSF_SESSION'', PStr sid)]"
       "trace s' = trace s @ [Log DEBUG, Log DEBUG, SetVariable ''LAST_MSF_SESSION'' (PStr sid),
                              Log DEBUG, Sleep 30, Log DEBUG]"
    by (simp_all add: r(3) add_or_queue_session_direct emit_def)
  then show "\<exists>i sid u.
             fresh_poll live (map fst (live (reads s + 1))) (length (live (reads s))) (reads s + 2) i
           \<and> fresh live (map fst (live (reads s + 1)))
                ((next_poll live (length (live (reads s))) ^^ i) (reads s + 2)) = Some (sid, u)
           \<and> reads s' = (next_poll live (length (live (reads s))) ^^ i) (reads s + 2) + 3
           \<and> sessions s' = (sessions s)(name \<mapsto> u)
           \<and> varstore s' = varstore s @ [(''LAST_MSF_SESSION'', PStr sid)]
           \<and> trace s' = trace s @ [Log DEBUG, Log DEBUG,
                                    SetVariable ''LAST_MSF_SESSION'' (PStr sid),
                                    Log DEBUG, Sleep 30, Log DEBUG]"
    using r(1,2) by blast
next
  assume "\<exists>i. session_found live uuid ((next_poll live 0 ^^ i) (reads s + 1))"
  then obtain i where "session_found live uuid ((next_poll live 0 ^^ i) (reads s + 1))" ..
  then have "session_found live uuid
               ((next_poll live 0 ^^ i) (reads ((emit [Log DEBUG] s)\<lparr>reads := reads s + 1\<rparr>)))"
    by simp
  then show "wait_for_session name uuid live qu s \<noteq> None"
    unfolding wait_for_session_def by (rule wait_for_session_poll_returns)
next
  assume "\<exists>i. fresh_found live (map fst (live (reads s + 1))) (length (live (reads s)))
               ((next_poll live (length (live (reads s))) ^^ i) (reads s + 2))"
  then obtain i where "fresh_found live (map fst (live (reads s + 1))) (length (live (reads s)))
               ((next_poll live (length (live (reads s))) ^^ i) (reads s + 2))" ..
  then have "fresh_found live (map fst (live (reads s + 1))) (length (live (reads s)))
               ((next_poll live (length (live (reads s))) ^^ i) (reads (s\<lparr>reads := reads s + 2\<rparr>)))"
    by simp
  then show "wait_for_increased_session name uuid live qu s \<noteq> None"
    unfolding wait_for_increased_session_def by (rule wait_for_increased_session_poll_returns)
qed

theorem wait_for_session_queues_or_registers_witness:
  "session_found one_session ''uuid-a'' ((next_poll one_session 0 ^^ 0) (reads new_store + 1))
   \<and> wait_for_session ''beacon1'' ''uuid-a'' one_session (Some 0) new_store \<noteq> None
   \<and> sessions (the (wait_for_session ''beacon1'' ''uuid-a'' one_session (Some 0) new_store))
       = sessions new_store
   \<and> varstore (the (wait_for_session ''beacon1'' ''uuid-a'' one_session (Some 0) new_store)) = []
   \<and> queues (the (wait_for_session ''beacon1'' ''uuid-a'' one_session (Some 0) new_store)) 0
       = [(''beacon1'', ''uuid-a'')]
   \<and> wait_for_session ''beacon1'' ''uuid-a'' one_session None new_store \<noteq> None
   \<and> sessions (the (wait_for_session ''beacon1'' ''uuid-a'' one_session None new_store)) ''beacon1''
       = Some ''uuid-a''
   \<and> varstore (the (wait_for_session ''beacon1'' ''uuid-a'' one_session None new_store))
       = [(''LAST_MSF_SESSION'', PStr ''1'')]
   \<and> fresh_found growing (map fst (growing (reads new_store + 1))) (length (growing (reads new_store)))
        ((next_poll growing (length (growing (reads new_store))) ^^ 0) (reads new_store + 2))
   \<and> wait_for_increased_session ''beacon2'' ''uuid-a'' growing (Some 0) new_store \<noteq> None
   \<and> sessions (the (wait_for_increased_session ''beacon2'' ''uuid-a'' growing (Some 0) new_store))
       = sessions new_store
   \<and> varstore (the (wait_for_increased_session ''beacon2'' ''uuid-a'' growing (Some 0) new_store)) = []
   \<and> queues (the (wait_for_increased_session ''beacon2'' ''uuid-a'' growing (Some 0) new_store)) 0
       = [(''beacon2'', ''uuid-b'')]
   \<and> wait_for_increased_session ''beacon2'' ''uuid-a'' growing None new_store \<noteq> None
   \<and> sessions (the (wait_for_increased_session ''beacon2'' ''uuid-a'' growing None new_store)) ''beacon2''
       = Some ''uuid-b''
   \<and> varstore (the (wait_for_increased_session ''beacon2'' ''uuid-a'' growing None new_store))
       = [(''LAST_MSF_SESSION'', PStr ''2'')]"
proof -
  have f: "session_found one_session ''uuid-a'' ((next_poll one_session 0 ^^ 0) (reads new_store + 1))"
    by (simp add: session_found_def one_session_def)
  note w = wait_for_session_queues_or_registers
             [where name = "''beacon1''" and uuid = "''uuid-a''" and live = one_session
                and s = new_store and q = 0]
  note w1 = w[where qu = None, THEN conjunct1, rule_format]
  note w3 = w[where qu = None, THEN conjunct2, THEN conjunct2, THEN conjunct1, rule_format]
  note w5 = w[THEN conjunct2, THEN conjunct2, THEN conjunct2, THEN conjunct2, THEN conjunct1,
              rule_format]
  have r1: "wait_for_session ''beacon1'' ''uuid-a'' one_session (Some 0) new_store \<noteq> None"
    by (rule w5) (use f in blast)
  have r2: "wait_for_session ''beacon1'' ''uuid-a'' one_session None new_store \<noteq> None"
    by (rule w5) (use f in blast)
  obtain s1 where s1: "wait_for_session ''beacon1'' ''uuid-a'' one_session (Some 0) new_store = Some s1"
    using r1 by blast
  obtain s2 where s2: "wait_for_session ''beacon1'' ''uuid-a'' one_session None new_store = Some s2"
    using r2 by blast
  have q1: "sessions s1 = sessions new_store" "varstore s1 = varstore new_store"
    "queues s1 = (queues new_store)(0 := queues new_store 0 @ [(''beacon1'', ''uuid-a'')])"
    using w1[OF s1] by simp_all
  have q2: "sessions s2 = (sessions new_store)(''beacon1'' \<mapsto> ''uuid-a'')"
    using w3[OF s2] by simp
  obtain i sid where q3: "matched one_session ''uuid-a'' ((next_poll one_session 0 ^^ i) (reads new_store + 1))
        = Some (sid, ''uuid-a'')"
      "varstore s2 = varstore new_store @ [(''LAST_MSF_SESSION'', PStr sid)]"
    using w3[OF s2] by blast
  have sid: "sid = ''1''"
    using q3(1) by (simp add: matched_def one_session_def)
  have q1': "varstore s1 = []" "queues s1 0 = [(''beacon1'', ''uuid-a'')]"
    using q1 by (simp_all add: new_store_def)
  have q2': "sessions s2 ''beacon1'' = Some ''uuid-a''"
    using q2 by simp
  have q3': "varstore s2 = [(''LAST_MSF_SESSION'', PStr ''1'')]"
    using q3(2) sid by (simp add: new_store_def)
  have g: "fresh_found growing (map fst (growing (reads new_store + 1))) (length (growing (reads new_store)))
        ((next_poll growing (length (growing (reads new_store))) ^^ 0) (reads new_store + 2))"
    by (simp add: fresh_found_def growing_def new_store_def)
  note v = wait_for_session_queues_or_registers
             [where name = "''beacon2''" and uuid = "''uuid-a''" and live = growing
                and s = new_store and q = 0]
  note v2 = v[where qu = None, THEN conjunct2, THEN conjunct1, rule_format]
  note v4 = v[where qu = None, THEN conjunct2, THEN conjunct2, THEN conjunct2, THEN conjunct1,
              rule_format]
  note v6 = v[THEN conjunct2, THEN conjunct2, THEN conjunct2, THEN conjunct2, THEN conjunct2,
              rule_format]
  have r3: "wait_for_increased_session ''beacon2'' ''uuid-a'' growing (Some 0) new_store \<noteq> None"
    by (rule v6) (use g in blast)
  have r4: "wait_for_increased_session ''beacon2'' ''uuid-a'' growing None new_store \<noteq> None"
    by (rule v6) (use g in blast)
  obtain s3 where s3: "wait_for_increased_session ''beacon2'' ''uuid-a'' growing (Some 0) new_store = Some s3"
    using r3 by blast
  obtain s4 where s4: "wait_for_increased_session ''beacon2'' ''uuid-a'' growing None new_store = Some s4"
    using r4 by blast
  have first: "j = 0 \<and> a = ''2'' \<and> b = ''uuid-b''"
    if "fresh_poll growing (map fst (growing (reads new_store + 1))) (length (growing (reads new_store)))
          (reads new_store + 2) j"
       "fresh growing (map fst (growing (reads new_store + 1)))
          ((next_poll growing (length (growing (reads new_store))) ^^ j) (reads new_store + 2)) = Some (a, b)"
    for j a b
  proof -
    have "j = 0"
    proof (rule ccontr)
      assume "j \<noteq> 0"
      then have "\<not> fresh_found growing (map fst (growing (reads new_store + 1)))
                    (length (growing (reads new_store)))
                    ((next_poll growing (length (growing (reads new_store))) ^^ 0) (reads new_store + 2))"
        using that(1) unfolding fresh_poll_def by blast
      then show False using g by simp
    qed
    then show ?thesis
      using that(2) by (simp add: fresh_def growing_def new_store_def)
  qed
  have q4: "sessions s3 = sessions new_store" "varstore s3 = varstore new_store"
    using v2[OF s3] by simp_all
  obtain j a b where q5:
      "fresh_poll growing (map fst (growing (reads new_store + 1))) (length (growing (reads new_store)))
          (reads new_store + 2) j"
      "fresh growing (map fst (growing (reads new_store + 1)))
          ((next_poll growing (length (growing (reads new_store))) ^^ j) (reads new_store + 2)) = Some (a, b)"
      "queues s3 = (queues new_store)(0 := queues new_store 0 @ [(''beacon2'', b)])"
    using v2[OF s3] by blast
  have q5': "queues s3 0 = [(''beacon2'', ''uuid-b'')]"
    using q5(3) first[OF q5(1,2)] by (simp add: new_store_def)
  obtain k c d where q6:
      "fresh_poll growing (map fst (growing (reads new_store + 1))) (length (growing (reads new_store)))
          (reads new_store + 2) k"
      "fresh growing (map fst (growing (reads new_store + 1)))
          ((next_poll growing (length (growing (reads new_store))) ^^ k) (reads new_store + 2)) = Some (c, d)"
      "sessions s4 = (sessions new_store)(''beacon2'' \<mapsto> d)"
      "varstore s4 = varstore new_store @ [(''LAST_MSF_SESSION'', PStr c)]"
    using v4[OF s4] by blast
  have q6': "sessions s4 ''beacon2'' = Some ''uuid-b''"
            "varstore s4 = [(''LAST_MSF_SESSION'', PStr ''2'')]"
    using q6(3,4) first[OF q6(1,2)] by (simp_all add: new_store_def)
  have q4': "varstore s3 = []" using q4(2) by (simp add: new_store_def)
  show ?thesis
    unfolding s1 s2 s3 s4 option.sel
    by (intro conjI f r1[unfolded s1] r2[unfolded s2] q1(1) q1' q2' q3' g r3[unfolded s3]
          r4[unfolded s4] q4(1) q4' q5' q6')
qed

section \<open>Claims about substitution\<close>

subsection \<open>The deep copy\<close>

lemma deepcopy_attrs_spec:
  assumes "\<forall>d d'. (d, d') \<in> set memo \<longrightarrow>
             length orig \<le> d' \<and> d' < length (orig @ extra) \<and> (orig @ extra) ! d' = orig ! d"
      and "\<forall>k d. (k, VRef d) \<in> set xs \<longrightarrow> d < length orig"
  shows "\<exists>new xs'. deepcopy_attrs (orig @ extra) memo xs = (xs', orig @ extra @ new)
           \<and> list_all2 (\<lambda>p p'. fst p' = fst p
                  \<and> copied (length orig) orig (orig @ extra @ new) (snd p) (snd p')) xs xs'"
  using assms
proof (induction xs arbitrary: extra memo)
  case Nil
  show ?case by (rule exI[where x = "[]"]) simp
next
  case (Cons p xs)
  obtain k v where p: "p = (k, v)" by (cases p)
  have wf': "\<forall>k d. (k, VRef d) \<in> set xs \<longrightarrow> d < length orig"
    using Cons(3) by auto
  show ?case
  proof (cases v)
    case (VStr x)
    from Cons(1)[OF Cons(2) wf'] obtain new xs' where
      r: "deepcopy_attrs (orig @ extra) memo xs = (xs', orig @ extra @ new)"
         "list_all2 (\<lambda>p p'. fst p' = fst p
                  \<and> copied (length orig) orig (orig @ extra @ new) (snd p) (snd p')) xs xs'"
      by blast
    have "copied (length orig) orig (orig @ extra @ new) (VStr x) (VStr x)"
      by (simp add: copied_def)
    then show ?thesis
      using r
      by (intro exI[where x = new] exI[where x = "(k, VStr x) # xs'"]) (simp add: p VStr)
  next
    case (VAtom x)
    from Cons(1)[OF Cons(2) wf'] obtain new xs' where
      r: "deepcopy_attrs (orig @ extra) memo xs = (xs', orig @ extra @ new)"
         "list_all2 (\<lambda>p p'. fst p' = fst p
                  \<and> copied (length orig) orig (orig @ extra @ new) (snd p) (snd p')) xs xs'"
      by blast
    have "copied (length orig) orig (orig @ extra @ new) (VAtom x) (VAtom x)"
      by (simp add: copied_def)
    then show ?thesis
      using r
      by (intro exI[where x = new] exI[where x = "(k, VAtom x) # xs'"]) (simp add: p VAtom)
  next
    case (VRef d)
    have d: "d < length orig" using Cons(3) p VRef by auto
    show ?thesis
    proof (cases "map_of memo d")
      case (Some d')
      then have m: "length orig \<le> d'" "d' < length (orig @ extra)" "(orig @ extra) ! d' = orig ! d"
        using Cons(2) by (auto dest!: map_of_SomeD)
      from Cons(1)[OF Cons(2) wf'] obtain new xs' where
        r: "deepcopy_attrs (orig @ extra) memo xs = (xs', orig @ extra @ new)"
           "list_all2 (\<lambda>p p'. fst p' = fst p
                    \<and> copied (length orig) orig (orig @ extra @ new) (snd p) (snd p')) xs xs'"
        by blast
      have "(orig @ extra @ new) ! d' = orig ! d"
        using m(2,3) by (metis append.assoc nth_append)
      then have "copied (length orig) orig (orig @ extra @ new) (VRef d) (VRef d')"
        using m(1,2) by (simp add: copied_def)
      then show ?thesis
        using r
        by (intro exI[where x = new] exI[where x = "(k, VRef d') # xs'"])
           (simp add: p VRef Some)
    next
      case None
      let ?extra' = "extra @ [orig ! d]"
      let ?memo' = "(d, length (orig @ extra)) # memo"
      have cs: "(orig @ extra) @ [(orig @ extra) ! d] = orig @ ?extra'"
        using d by (simp add: nth_append)
      have inv': "\<forall>x x'. (x, x') \<in> set ?memo' \<longrightarrow>
             length orig \<le> x' \<and> x' < length (orig @ ?extra') \<and> (orig @ ?extra') ! x' = orig ! x"
      proof (intro allI impI)
        fix x x' assume "(x, x') \<in> set ?memo'"
        then consider "x = d" "x' = length (orig @ extra)" | "(x, x') \<in> set memo" by auto
        then show "length orig \<le> x' \<and> x' < length (orig @ ?extra') \<and> (orig @ ?extra') ! x' = orig ! x"
        proof cases
          case 1
          then show ?thesis by (simp add: nth_append)
        next
          case 2
          with Cons(2) have b: "length orig \<le> x'" "x' < length (orig @ extra)" "(orig @ extra) ! x' = orig ! x"
            by auto
          have "(orig @ ?extra') ! x' = (orig @ extra) ! x'"
            using b(2) by (metis append.assoc nth_append)
          then show ?thesis using b by simp
        qed
      qed
      from Cons(1)[OF inv' wf'] obtain new xs' where
        r: "deepcopy_attrs (orig @ ?extra') ?memo' xs = (xs', orig @ ?extra' @ new)"
           "list_all2 (\<lambda>p p'. fst p' = fst p
                    \<and> copied (length orig) orig (orig @ ?extra' @ new) (snd p) (snd p')) xs xs'"
        by blast
      have "copied (length orig) orig (orig @ ?extra' @ new) (VRef d) (VRef (length (orig @ extra)))"
        by (simp add: copied_def nth_append)
      then show ?thesis
        using d r
        by (intro exI[where x = "[orig ! d] @ new"] exI[where x = "(k, VRef (length (orig @ extra))) # xs'"])
           (simp add: p VRef None cs[simplified] nth_append)
    qed
  qed
qed

lemma map_of_related:
  "list_all2 (\<lambda>p p'. fst p' = fst p \<and> R (snd p) (snd p')) xs xs' \<Longrightarrow>
     (case map_of xs m of
        None \<Rightarrow> map_of xs' m = None
      | Some v \<Rightarrow> (\<exists>v'. map_of xs' m = Some v' \<and> R v v'))"
  by (induction rule: list_all2_induct) (auto split: option.splits)

lemma copied_text [simp]:
  "copied base cs cs' (VStr x) v' \<longleftrightarrow> v' = VStr x"
  "copied base cs cs' (VAtom y) v' \<longleftrightarrow> v' = VAtom y"
  "copied base cs cs' (opt_str z) v' \<longleftrightarrow> v' = opt_str z"
  by (simp_all add: copied_def opt_str_def split: option.splits)

lemma getattr_copied:
  assumes "list_all2 (\<lambda>p p'. fst p' = fst p \<and> copied base cs cs' (snd p) (snd p')) (extras c) ex'"
  shows "case getattr c m of
           None \<Rightarrow> getattr (c\<lparr>extras := ex'\<rparr>) m = None
         | Some v \<Rightarrow> (\<exists>v'. getattr (c\<lparr>extras := ex'\<rparr>) m = Some v' \<and> copied base cs cs' v v')"
  using map_of_related[OF assms, of m]
  by (auto simp add: getattr_def split: option.splits)

lemma map_of_assign: "map_of (assign k v xs) k' = (if k' = k then Some v else map_of xs k')"
  by (induction xs) auto


lemma getattr_VRef: "getattr c m = Some (VRef d) \<Longrightarrow> \<not> typed_name m \<and> map_of (extras c) m = Some (VRef d)"
  by (auto simp: getattr_def typed_name_def opt_str_def split: if_splits option.splits)

lemma getattr_VStr: "getattr c m = Some (VStr x) \<Longrightarrow> m \<noteq> ''exit_on_error''"
  by (auto simp: getattr_def)

lemma getattr_setattr_str_same:
  "m \<noteq> ''exit_on_error'' \<Longrightarrow> getattr (setattr_str c m x) m = Some (VStr x)"
  by (auto simp add: getattr_def setattr_str_def opt_str_def map_of_assign)

lemma getattr_setattr_str_other:
  "m' \<noteq> m \<Longrightarrow> getattr (setattr_str c m x) m' = getattr c m'"
  by (auto simp add: getattr_def setattr_str_def map_of_assign)

lemma getattr_setattr_ref_same:
  "\<not> typed_name m \<Longrightarrow> getattr (setattr_ref c m d) m = Some (VRef d)"
  by (auto simp add: getattr_def setattr_ref_def typed_name_def map_of_assign)

lemma getattr_setattr_ref_other:
  "m' \<noteq> m \<Longrightarrow> getattr (setattr_ref c m d) m' = getattr c m'"
  by (auto simp add: getattr_def setattr_ref_def map_of_assign)

lemma template_vars_setattr [simp]:
  "template_vars (setattr_str c m x) = template_vars c"
  "template_vars (setattr_ref c m d) = template_vars c"
  by (simp_all add: setattr_str_def setattr_ref_def)

lemma deepcopy_spec:
  assumes "\<forall>k d. (k, VRef d) \<in> set (extras (commands h ! a)) \<longrightarrow> d < length (containers h)"
  shows "\<exists>c' new. deepcopy h a
             = (\<lparr>commands = commands h @ [c'], containers = containers h @ new\<rparr>, length (commands h))
           \<and> template_vars c' = template_vars (commands h ! a)
           \<and> (\<forall>m. case getattr (commands h ! a) m of
                      None \<Rightarrow> getattr c' m = None
                    | Some v \<Rightarrow> (\<exists>v'. getattr c' m = Some v'
                          \<and> copied (length (containers h)) (containers h) (containers h @ new) v v'))"
proof -
  let ?c = "commands h ! a"
  have "\<forall>d d'. (d, d') \<in> set [] \<longrightarrow>
          length (containers h) \<le> d' \<and> d' < length (containers h @ []) \<and> (containers h @ []) ! d' = containers h ! d"
    by simp
  from deepcopy_attrs_spec[OF this assms] obtain new ex' where
    r: "deepcopy_attrs (containers h) [] (extras ?c) = (ex', containers h @ new)"
       "list_all2 (\<lambda>p p'. fst p' = fst p
            \<and> copied (length (containers h)) (containers h) (containers h @ new) (snd p) (snd p'))
          (extras ?c) ex'"
    by auto
  show ?thesis
    using getattr_copied[OF r(2)]
    by (intro exI[where x = "?c\<lparr>extras := ex'\<rparr>"] exI[where x = new])
       (simp add: deepcopy_def r(1))
qed

subsection \<open>The loop over the template variables\<close>

lemma copied_append:
  "copied base cs0 cs v v' \<Longrightarrow> copied base cs0 (cs @ new) v v'"
  by (auto simp: copied_def nth_append split: val.splits)

lemma substituted_append:
  "substituted e vs base cs0 cs v v' \<Longrightarrow> substituted e vs base cs0 (cs @ new) v v'"
  by (auto simp: substituted_def nth_append split: val.splits)

lemma filled_at:
  assumes "filled e vs cs0 D c c' cs"
  shows "case getattr c m of
           None \<Rightarrow> getattr c' m = None
         | Some v \<Rightarrow>
             (\<exists>v'. getattr c' m = Some v'
                \<and> (if m \<in> D then substituted e vs (length cs0) cs0 cs v v'
                    else copied (length cs0) cs0 cs v v'))"
  using assms unfolding filled_def by blast

lemma filledI:
  assumes "\<And>m. getattr c m = None \<Longrightarrow> getattr c' m = None"
      and "\<And>m v. getattr c m = Some v \<Longrightarrow>
             \<exists>v'. getattr c' m = Some v'
                \<and> (if m \<in> D then substituted e vs (length cs0) cs0 cs v v'
                    else copied (length cs0) cs0 cs v v')"
  shows "filled e vs cs0 D c c' cs"
  unfolding filled_def
proof
  fix m
  show "case getattr c m of
           None \<Rightarrow> getattr c' m = None
         | Some v \<Rightarrow>
             (\<exists>v'. getattr c' m = Some v'
                \<and> (if m \<in> D then substituted e vs (length cs0) cs0 cs v v'
                    else copied (length cs0) cs0 cs v v'))"
    using assms[of m] by (cases "getattr c m") simp_all
qed

lemma filled_None:
  "filled e vs cs0 D c c' cs \<Longrightarrow> getattr c m = None \<Longrightarrow> getattr c' m = None"
  using filled_at[of e vs cs0 D c c' cs m] by simp

lemma filled_Some:
  "filled e vs cs0 D c c' cs \<Longrightarrow> getattr c m = Some v \<Longrightarrow>
     \<exists>v'. getattr c' m = Some v'
          \<and> (if m \<in> D then substituted e vs (length cs0) cs0 cs v v'
              else copied (length cs0) cs0 cs v v')"
  using filled_at[of e vs cs0 D c c' cs m] by simp

lemma filled_append:
  assumes "filled e vs cs0 D c c' cs"
  shows "filled e vs cs0 D c c' (cs @ new)"
proof (rule filledI)
  fix m assume "getattr c m = None"
  then show "getattr c' m = None" using assms by (rule filled_None[rotated])
next
  fix m v assume "getattr c m = Some v"
  from filled_Some[OF assms this] obtain v' where
    "getattr c' m = Some v'"
    "if m \<in> D then substituted e vs (length cs0) cs0 cs v v' else copied (length cs0) cs0 cs v v'"
    by blast
  then show "\<exists>v'. getattr c' m = Some v'
                \<and> (if m \<in> D then substituted e vs (length cs0) cs0 (cs @ new) v v'
                    else copied (length cs0) cs0 (cs @ new) v v')"
    by (auto intro: copied_append substituted_append split: if_splits)
qed

lemma filled_insert:
  assumes f: "filled e vs cs0 D c c' cs"
      and m: "getattr c m = Some v" "getattr c'' m = Some v''"
             "substituted e vs (length cs0) cs0 cs v v''"
      and other: "\<And>m'. m' \<noteq> m \<Longrightarrow> getattr c'' m' = getattr c' m'"
  shows "filled e vs cs0 (insert m D) c c'' cs"
proof (rule filledI)
  fix m' assume n: "getattr c m' = None"
  then have "m' \<noteq> m" using m(1) by auto
  then show "getattr c'' m' = None" using filled_None[OF f n] other by simp
next
  fix m' w assume s: "getattr c m' = Some w"
  show "\<exists>v'. getattr c'' m' = Some v'
                \<and> (if m' \<in> insert m D then substituted e vs (length cs0) cs0 cs w v'
                    else copied (length cs0) cs0 cs w v')"
  proof (cases "m' = m")
    case True
    then show ?thesis using m s by simp
  next
    case False
    then show ?thesis using filled_Some[OF f s] other by simp
  qed
qed

lemma copied_passes_through:
  assumes "copied base cs0 cs v v'"
      and "case v of VStr x \<Rightarrow> False | VAtom y \<Rightarrow> True | VRef d \<Rightarrow> (\<exists>xs. cs0 ! d = PyList xs)"
  shows "substituted e vs base cs0 cs v v'"
  using assms by (auto simp: copied_def substituted_def split: val.splits)

lemma filled_insert_unchanged:
  assumes f: "filled e vs cs0 D c c' cs"
      and m: "getattr c m = Some v"
      and p: "case v of VStr x \<Rightarrow> False | VAtom y \<Rightarrow> True | VRef d \<Rightarrow> (\<exists>xs. cs0 ! d = PyList xs)"
  shows "filled e vs cs0 (insert m D) c c' cs"
proof -
  from filled_Some[OF f m] obtain v' where v': "getattr c' m = Some v'"
    "if m \<in> D then substituted e vs (length cs0) cs0 cs v v' else copied (length cs0) cs0 cs v v'"
    by blast
  have "substituted e vs (length cs0) cs0 cs v v'"
    using v'(2) copied_passes_through[OF _ p] by (auto split: if_splits)
  from filled_insert[OF f m v'(1) this] show ?thesis by simp
qed

lemma replace_members_spec:
  assumes "a < length (commands h)" "t < length (commands h)" "a \<noteq> t"
      and "containers h = cs0 @ extra"
      and "\<forall>m d. getattr (commands h ! a) m = Some (VRef d) \<longrightarrow> d < length cs0"
      and "\<forall>m \<in> set ms. getattr (commands h ! a) m \<noteq> None"
      and "filled e vs cs0 D (commands h ! a) (commands h ! t) (containers h)"
  shows "\<exists>h' new. replace_members e vs a t ms h = Inr h'
           \<and> length (commands h') = length (commands h)
           \<and> (\<forall>x. x \<noteq> t \<longrightarrow> commands h' ! x = commands h ! x)
           \<and> containers h' = containers h @ new
           \<and> template_vars (commands h' ! t) = template_vars (commands h ! t)
           \<and> filled e vs cs0 (D \<union> set ms) (commands h ! a) (commands h' ! t) (containers h')"
  using assms
proof (induction ms arbitrary: h D extra)
  case Nil
  show ?case
    using Nil(7) by (intro exI[where x = h] exI[where x = "[]"]) simp
next
  case (Cons m ms)
  let ?c = "commands h ! a" and ?c' = "commands h ! t"
  obtain v where v: "getattr ?c m = Some v" using Cons(7) by auto
  have rest: "\<forall>m \<in> set ms. getattr ?c m \<noteq> None" using Cons(7) by simp
  show ?case
  proof (cases v)
    case (VStr x)
    let ?h1 = "h\<lparr>commands := (commands h)[t := setattr_str ?c' m (substitute e vs x)]\<rparr>"
    have a1: "(commands h)[t := setattr_str ?c' m (substitute e vs x)] ! a = ?c"
      using Cons(4) by simp
    have t1: "(commands h)[t := setattr_str ?c' m (substitute e vs x)] ! t
                = setattr_str ?c' m (substitute e vs x)"
      using Cons(3) by simp
    have ne: "m \<noteq> ''exit_on_error''" using v VStr by (auto dest: getattr_VStr)
    have "filled e vs cs0 (insert m D) ?c (setattr_str ?c' m (substitute e vs x)) (containers h)"
      using Cons(8) v
    proof (rule filled_insert)
      show "getattr (setattr_str ?c' m (substitute e vs x)) m = Some (VStr (substitute e vs x))"
        using ne by (rule getattr_setattr_str_same)
      show "substituted e vs (length cs0) cs0 (containers h) v (VStr (substitute e vs x))"
        by (simp add: VStr substituted_def)
      show "\<And>m'. m' \<noteq> m \<Longrightarrow> getattr (setattr_str ?c' m (substitute e vs x)) m' = getattr ?c' m'"
        by (rule getattr_setattr_str_other)
    qed
    then have f1: "filled e vs cs0 (insert m D) (commands ?h1 ! a) (commands ?h1 ! t) (containers ?h1)"
      by (simp add: a1 t1)
    have "\<exists>h' new. replace_members e vs a t ms ?h1 = Inr h'
           \<and> length (commands h') = length (commands ?h1)
           \<and> (\<forall>x. x \<noteq> t \<longrightarrow> commands h' ! x = commands ?h1 ! x)
           \<and> containers h' = containers ?h1 @ new
           \<and> template_vars (commands h' ! t) = template_vars (commands ?h1 ! t)
           \<and> filled e vs cs0 (insert m D \<union> set ms) (commands ?h1 ! a) (commands h' ! t) (containers h')"
      using Cons(2,3,4,5,6) rest f1
      by (intro Cons(1)[where extra = extra]) (simp_all add: a1)
    then obtain h' new where r: "replace_members e vs a t ms ?h1 = Inr h'"
        "length (commands h') = length (commands h)"
        "\<forall>x. x \<noteq> t \<longrightarrow> commands h' ! x = commands ?h1 ! x"
        "containers h' = containers h @ new"
        "template_vars (commands h' ! t) = template_vars (commands ?h1 ! t)"
        "filled e vs cs0 (insert m D \<union> set ms) ?c (commands h' ! t) (containers h')"
      by (auto simp: a1)
    have "replace_members e vs a t (m # ms) h = Inr h'"
      using v VStr r(1) by simp
    moreover have "\<forall>x. x \<noteq> t \<longrightarrow> commands h' ! x = commands h ! x"
      using r(3) by simp
    moreover have "template_vars (commands h' ! t) = template_vars ?c'"
      using r(5) by (simp add: t1)
    ultimately show ?thesis
      using r(2,4,6) by (intro exI[where x = h'] exI[where x = new]) simp
  next
    case (VAtom y)
    have f1: "filled e vs cs0 (insert m D) ?c ?c' (containers h)"
      using Cons(8) v by (rule filled_insert_unchanged) (simp add: VAtom)
    from Cons(1)[OF Cons(2,3,4,5,6) rest f1] obtain h' new where
      r: "replace_members e vs a t ms h = Inr h'"
        "length (commands h') = length (commands h)"
        "\<forall>x. x \<noteq> t \<longrightarrow> commands h' ! x = commands h ! x"
        "containers h' = containers h @ new"
        "template_vars (commands h' ! t) = template_vars ?c'"
        "filled e vs cs0 (insert m D \<union> set ms) ?c (commands h' ! t) (containers h')"
      by blast
    have "replace_members e vs a t (m # ms) h = Inr h'"
      using v VAtom r(1) by simp
    then show ?thesis
      using r(2-6) by (intro exI[where x = h'] exI[where x = new]) simp
  next
    case (VRef d)
    have d: "d < length cs0" using Cons(6) v VRef by blast
    then have dd: "d < length (containers h)" "containers h ! d = cs0 ! d"
      using Cons(5) by (simp_all add: nth_append)
    show ?thesis
    proof (cases "cs0 ! d")
      case (PyList xs)
      have f1: "filled e vs cs0 (insert m D) ?c ?c' (containers h)"
        using Cons(8) v by (rule filled_insert_unchanged) (simp add: VRef PyList)
      from Cons(1)[OF Cons(2,3,4,5,6) rest f1] obtain h' new where
        r: "replace_members e vs a t ms h = Inr h'"
          "length (commands h') = length (commands h)"
          "\<forall>x. x \<noteq> t \<longrightarrow> commands h' ! x = commands h ! x"
          "containers h' = containers h @ new"
          "template_vars (commands h' ! t) = template_vars ?c'"
          "filled e vs cs0 (insert m D \<union> set ms) ?c (commands h' ! t) (containers h')"
        by blast
      have "replace_members e vs a t (m # ms) h = Inr h'"
        using v VRef r(1) dd PyList by simp
      then show ?thesis
        using r(2-6) by (intro exI[where x = h'] exI[where x = new]) simp
    next
      case (Dict items)
      let ?n = "length (containers h)"
      let ?h1 = "h\<lparr>containers := containers h @ [Dict (substitute_items e vs items)],
                    commands := (commands h)[t := setattr_ref ?c' m ?n]\<rparr>"
      have a1: "(commands h)[t := setattr_ref ?c' m ?n] ! a = ?c"
        using Cons(4) by simp
      have t1: "(commands h)[t := setattr_ref ?c' m ?n] ! t = setattr_ref ?c' m ?n"
        using Cons(3) by simp
      have c1: "containers ?h1 = cs0 @ (extra @ [Dict (substitute_items e vs items)])"
        using Cons(5) by simp
      have nt: "\<not> typed_name m" using v VRef by (auto dest: getattr_VRef)
      have "filled e vs cs0 D ?c ?c' (containers h @ [Dict (substitute_items e vs items)])"
        using Cons(8) by (rule filled_append)
      then have "filled e vs cs0 (insert m D) ?c (setattr_ref ?c' m ?n)
                   (containers h @ [Dict (substitute_items e vs items)])"
        using v
      proof (rule filled_insert)
        show "getattr (setattr_ref ?c' m ?n) m = Some (VRef ?n)"
          using nt by (rule getattr_setattr_ref_same)
        show "substituted e vs (length cs0) cs0 (containers h @ [Dict (substitute_items e vs items)])
                v (VRef ?n)"
          using Cons(5) by (simp add: VRef substituted_def Dict)
        show "\<And>m'. m' \<noteq> m \<Longrightarrow> getattr (setattr_ref ?c' m ?n) m' = getattr ?c' m'"
          by (rule getattr_setattr_ref_other)
      qed
      then have f1: "filled e vs cs0 (insert m D) (commands ?h1 ! a) (commands ?h1 ! t) (containers ?h1)"
        by (simp add: a1 t1)
      have "\<exists>h' new. replace_members e vs a t ms ?h1 = Inr h'
           \<and> length (commands h') = length (commands ?h1)
           \<and> (\<forall>x. x \<noteq> t \<longrightarrow> commands h' ! x = commands ?h1 ! x)
           \<and> containers h' = containers ?h1 @ new
           \<and> template_vars (commands h' ! t) = template_vars (commands ?h1 ! t)
           \<and> filled e vs cs0 (insert m D \<union> set ms) (commands ?h1 ! a) (commands h' ! t) (containers h')"
        using Cons(2,3,4,6) rest f1 c1
        by (intro Cons(1)[where extra = "extra @ [Dict (substitute_items e vs items)]"])
           (simp_all add: a1)
      then obtain h' new where r: "replace_members e vs a t ms ?h1 = Inr h'"
          "length (commands h') = length (commands h)"
          "\<forall>x. x \<noteq> t \<longrightarrow> commands h' ! x = commands ?h1 ! x"
          "containers h' = containers h @ [Dict (substitute_items e vs items)] @ new"
          "template_vars (commands h' ! t) = template_vars (commands ?h1 ! t)"
          "filled e vs cs0 (insert m D \<union> set ms) ?c (commands h' ! t) (containers h')"
        by (auto simp: a1)
      have "replace_members e vs a t (m # ms) h = Inr h'"
        using v VRef r(1) dd Dict by simp
      moreover have "\<forall>x. x \<noteq> t \<longrightarrow> commands h' ! x = commands h ! x"
        using r(3) by simp
      moreover have "template_vars (commands h' ! t) = template_vars ?c'"
        using r(5) by (simp add: t1)
      ultimately show ?thesis
        using r(2,4,6)
        by (intro exI[where x = h'] exI[where x = "[Dict (substitute_items e vs items)] @ new"]) simp
    qed
  qed
qed

lemma filled_refs_fresh:
  assumes "filled e vs cs0 D c c' cs" and "getattr c' m = Some (VRef d')"
  shows "length cs0 \<le> d' \<and> d' < length cs"
proof (cases "getattr c m")
  case None
  then show ?thesis using filled_None[OF assms(1) None] assms(2) by simp
next
  case (Some v)
  from filled_Some[OF assms(1) Some] assms(2)
  have "if m \<in> D then substituted e vs (length cs0) cs0 cs v (VRef d')
        else copied (length cs0) cs0 cs v (VRef d')"
    by auto
  then show ?thesis
    by (cases v) (auto simp: substituted_def copied_def split: if_splits)
qed

text \<open>
  C3. For a command at address \<open>a\<close> whose template variables are attributes it has, the call
  returns a new command object. Every command and every container that existed before the
  call is unchanged afterwards, the caller's command in particular, whatever the copy now
  holds. The copy has the attributes of the original: a template variable holds the
  substituted text, or a new dict with the text values substituted under the same keys;
  every other attribute, and a template variable of another shape, holds the original's
  text or scalar or a new container with the original's contents. No container of the copy
  existed before the call.
\<close>

theorem replace_variables_leaves_original:
  assumes "a < length (commands h)"
      and "\<forall>m \<in> set (template_vars (commands h ! a)). getattr (commands h ! a) m \<noteq> None"
      and "\<forall>k d. (k, VRef d) \<in> set (extras (commands h ! a)) \<longrightarrow> d < length (containers h)"
  shows "\<exists>h'. replace_variables e vs h a = Inr (h', length (commands h))
           \<and> length (commands h') = length (commands h) + 1
           \<and> take (length (commands h)) (commands h') = commands h
           \<and> commands h' ! a = commands h ! a
           \<and> take (length (containers h)) (containers h') = containers h
           \<and> template_vars (commands h' ! length (commands h)) = template_vars (commands h ! a)
           \<and> filled e vs (containers h) (set (template_vars (commands h ! a)))
                (commands h ! a) (commands h' ! length (commands h)) (containers h')
           \<and> (\<forall>m d'. getattr (commands h' ! length (commands h)) m = Some (VRef d')
                  \<longrightarrow> length (containers h) \<le> d' \<and> d' < length (containers h'))"
proof -
  let ?c = "commands h ! a" and ?t = "length (commands h)" and ?cs = "containers h"
  from deepcopy_spec[OF assms(3)] obtain c' new where
    dc: "deepcopy h a = (\<lparr>commands = commands h @ [c'], containers = ?cs @ new\<rparr>, ?t)"
        "template_vars c' = template_vars ?c"
        "\<forall>m. case getattr ?c m of
                None \<Rightarrow> getattr c' m = None
              | Some v \<Rightarrow> (\<exists>v'. getattr c' m = Some v' \<and> copied (length ?cs) ?cs (?cs @ new) v v')"
    by blast
  let ?h1 = "\<lparr>commands = commands h @ [c'], containers = ?cs @ new\<rparr>"
  have a1: "(commands h @ [c']) ! a = ?c" using assms(1) by (simp add: nth_append)
  have t1: "commands ?h1 ! ?t = c'" by simp
  have f0: "filled e vs ?cs {} ?c c' (?cs @ new)"
  proof (rule filledI)
    fix m assume "getattr ?c m = None"
    then show "getattr c' m = None" using dc(3)[rule_format, of m] by simp
  next
    fix m v assume "getattr ?c m = Some v"
    then show "\<exists>v'. getattr c' m = Some v'
                \<and> (if m \<in> {} then substituted e vs (length ?cs) ?cs (?cs @ new) v v'
                    else copied (length ?cs) ?cs (?cs @ new) v v')"
      using dc(3)[rule_format, of m] by simp
  qed
  have wf: "\<forall>m d. getattr ?c m = Some (VRef d) \<longrightarrow> d < length ?cs"
    using assms(3) by (auto dest!: getattr_VRef map_of_SomeD)
  have "\<exists>h' new'. replace_members e vs a ?t (template_vars ?c) ?h1 = Inr h'
           \<and> length (commands h') = length (commands ?h1)
           \<and> (\<forall>x. x \<noteq> ?t \<longrightarrow> commands h' ! x = commands ?h1 ! x)
           \<and> containers h' = containers ?h1 @ new'
           \<and> template_vars (commands h' ! ?t) = template_vars (commands ?h1 ! ?t)
           \<and> filled e vs ?cs ({} \<union> set (template_vars ?c)) (commands ?h1 ! a) (commands h' ! ?t)
                (containers h')"
    using assms(1,2) wf f0
    by (intro replace_members_spec[where extra = new]) (simp_all add: a1)
  then obtain h' new' where
    r: "replace_members e vs a ?t (template_vars ?c) ?h1 = Inr h'"
       "length (commands h') = ?t + 1"
       "\<forall>x. x \<noteq> ?t \<longrightarrow> commands h' ! x = commands ?h1 ! x"
       "containers h' = ?cs @ new @ new'"
       "template_vars (commands h' ! ?t) = template_vars c'"
       "filled e vs ?cs (set (template_vars ?c)) ?c (commands h' ! ?t) (containers h')"
    by (auto simp: a1)
  have rv: "replace_variables e vs h a = Inr (h', ?t)"
    using assms(1) by (simp add: replace_variables_def dc(1) r(1))
  have same: "commands h' ! x = commands h ! x" if "x < ?t" for x
    using r(3) that by (simp add: nth_append)
  have tk: "take ?t (commands h') = commands h"
    using r(2) same by (intro nth_equalityI) simp_all
  have fresh: "\<forall>m d'. getattr (commands h' ! ?t) m = Some (VRef d')
                  \<longrightarrow> length ?cs \<le> d' \<and> d' < length (containers h')"
    using filled_refs_fresh[OF r(6)] by blast
  show ?thesis
    using rv r(2) tk same[OF assms(1)] r(4) r(5) dc(2) r(6) fresh
    by (intro exI[where x = h']) simp
qed

theorem replace_variables_leaves_original_witness:
  "(0::nat) < length (commands module_store)
   \<and> getattr (commands module_store ! 0) ''cmd'' = Some (VStr ''$TARGET'')
   \<and> getattr (commands module_store ! 0) ''options'' = Some (VRef 0)
   \<and> replace_variables target_env [] module_store 0
       = Inr (\<lparr>commands = [module_command,
                             module_command\<lparr>cmd := ''10.0.0.5'',
                                            extras := [(''options'', VRef 4), (''tags'', VRef 3)]\<rparr>],
               containers = [Dict [(''RHOSTS'', DStr ''$TARGET''), (''RPORT'', DAtom (AInt 445))],
                             PyList [DStr ''$TARGET''],
                             Dict [(''RHOSTS'', DStr ''$TARGET''), (''RPORT'', DAtom (AInt 445))],
                             PyList [DStr ''$TARGET''],
                             Dict [(''RHOSTS'', DStr ''10.0.0.5''), (''RPORT'', DAtom (AInt 445))]]\<rparr>,
              1)"
proof -
  have h1: "0 < length (commands module_store)" by (simp add: module_store_def)
  have h2: "\<forall>m \<in> set (template_vars (commands module_store ! 0)).
              getattr (commands module_store ! 0) m \<noteq> None"
    by (simp add: module_store_def module_command_def check_command_def getattr_def)
  have h3: "\<forall>k d. (k, VRef d) \<in> set (extras (commands module_store ! 0))
              \<longrightarrow> d < length (containers module_store)"
    by (auto simp: module_store_def module_command_def check_command_def)
  have g: "getattr (commands module_store ! 0) ''cmd'' = Some (VStr ''$TARGET'')"
          "getattr (commands module_store ! 0) ''options'' = Some (VRef 0)"
    by (simp_all add: module_store_def module_command_def check_command_def getattr_def)
  from replace_variables_leaves_original[OF h1 h2 h3, of target_env "[]"]
  obtain h' where r: "replace_variables target_env [] module_store 0
                        = Inr (h', length (commands module_store))"
    by blast
  have "replace_variables target_env [] module_store 0
       = Inr (\<lparr>commands = [module_command,
                             module_command\<lparr>cmd := ''10.0.0.5'',
                                            extras := [(''options'', VRef 4), (''tags'', VRef 3)]\<rparr>],
               containers = [Dict [(''RHOSTS'', DStr ''$TARGET''), (''RPORT'', DAtom (AInt 445))],
                             PyList [DStr ''$TARGET''],
                             Dict [(''RHOSTS'', DStr ''$TARGET''), (''RPORT'', DAtom (AInt 445))],
                             PyList [DStr ''$TARGET''],
                             Dict [(''RHOSTS'', DStr ''10.0.0.5''), (''RPORT'', DAtom (AInt 445))]]\<rparr>,
              1)"
    by (simp add: replace_variables_def deepcopy_def module_store_def module_command_def
          check_command_def target_env_def scripted_def getattr_def setattr_str_def setattr_ref_def
          substitute_items_def opt_str_def Let_def)
  then show ?thesis using r h1 g by simp
qed

end
